theory Spec2Isabelle
  imports Main "HOL-Library.AList" "HOL-Library.FSet" "HOL-Library.Char_ord"
    "HOL-Library.List_Lexorder"
begin

section \<open>Python values and string primitives\<close>

text \<open>
  The script \<^verbatim>\<open>scripts/save_summary_compact.py\<close> works on values decoded from JSON
  text. A decoded value is \<^verbatim>\<open>None\<close>, a \<^verbatim>\<open>bool\<close>, an \<^verbatim>\<open>int\<close>, a \<^verbatim>\<open>float\<close>, a
  \<^verbatim>\<open>str\<close>, a \<^verbatim>\<open>list\<close> or a \<^verbatim>\<open>dict\<close> with string keys. A dict keeps its keys in
  insertion order, so it is an association list; assigning to a key that is present keeps
  the key's position, assigning to a new key appends it. A float is carried by its
  \<^verbatim>\<open>repr\<close>, the shortest text that reads back as the same double.

  A Python \<^verbatim>\<open>str\<close> is modelled as a \<^typ>\<open>string\<close>: the code points below 256.
\<close>

datatype json =
    JNull
  | JBool bool
  | JInt int
  | JFloat string
  | JStr string
  | JList "json list"
  | JObj "(string \<times> json) list"

type_synonym dict = "(string \<times> json) list"

text \<open>The exceptions that the modelled functions raise.\<close>

datatype error =
    NoFileBlocks        \<comment> \<open>\<^verbatim>\<open>ValueError\<close>: the reply holds no pair of file blocks\<close>
  | JSONDecodeError     \<comment> \<open>\<^verbatim>\<open>json.loads\<close> rejected a text\<close>
  | AttributeError      \<comment> \<open>\<^verbatim>\<open>.get\<close> on a value that is not a dict\<close>
  | InvalidId json      \<comment> \<open>\<^verbatim>\<open>ValueError\<close>: a resolution line without a legal id\<close>
  | TypeError           \<comment> \<open>iteration over, or item assignment on, a value without it\<close>
  | KeyError            \<comment> \<open>subscript with a key that is absent\<close>
  | OSError             \<comment> \<open>\<^verbatim>\<open>open\<close> failed: the system refused the path\<close>
  | EmbeddedNul         \<comment> \<open>\<^verbatim>\<open>ValueError\<close>: \<^verbatim>\<open>open\<close> met a NUL in the path\<close>

text \<open>
  The functions of the standard library that the script calls and that stay abstract:
  \<^verbatim>\<open>json.loads\<close> (\<open>None\<close> when it raises), \<^verbatim>\<open>json.dumps(item, ensure_ascii=False,
  sort_keys=True)\<close> (\<open>None\<close> when it raises) and \<^verbatim>\<open>str\<close>.
\<close>

record pylib =
  json_loads :: "string \<Rightarrow> json option"
  json_dumps :: "json \<Rightarrow> string option"
  py_str :: "json \<Rightarrow> string"

subsection \<open>Strings\<close>

text \<open>
  \<^verbatim>\<open>str.isspace\<close> on one character, which is also what \<^verbatim>\<open>\s\<close> matches in a \<^verbatim>\<open>str\<close>
  pattern and what \<^verbatim>\<open>str.strip()\<close> removes: tab, line feed, vertical tab, form feed,
  carriage return, the separators 0x1C to 0x1F, space, NEL and the no-break space.
\<close>

definition is_space :: "char \<Rightarrow> bool" where
  "is_space c = (c \<in> set [CHR 0x09, CHR 0x0A, CHR 0x0B, CHR 0x0C, CHR 0x0D, CHR 0x1C,
     CHR 0x1D, CHR 0x1E, CHR 0x1F, CHR 0x20, CHR 0x85, CHR 0xA0])"

definition lstrip :: "string \<Rightarrow> string" where
  "lstrip s = dropWhile is_space s"

definition rstrip :: "string \<Rightarrow> string" where
  "rstrip s = rev (dropWhile is_space (rev s))"

definition strip :: "string \<Rightarrow> string" where
  "strip s = rstrip (lstrip s)"

definition startswith :: "string \<Rightarrow> string \<Rightarrow> bool" where
  "startswith s p = (take (length p) s = p)"

definition endswith :: "string \<Rightarrow> string \<Rightarrow> bool" where
  "endswith s p = (length p \<le> length s \<and> drop (length s - length p) s = p)"

text \<open>\<^verbatim>\<open>sep.join(parts)\<close>.\<close>

fun join :: "string \<Rightarrow> string list \<Rightarrow> string" where
  "join sep [] = []"
| "join sep [x] = x"
| "join sep (x # y # ys) = x @ sep @ join sep (y # ys)"

text \<open>
  The slice \<^verbatim>\<open>xs[i:]\<close>: a negative \<open>i\<close> counts from the end and is clamped at the
  start of the list, a non-negative one counts from the start.
\<close>

definition slice_from :: "int \<Rightarrow> 'a list \<Rightarrow> 'a list" where
  "slice_from i xs =
     (if i < 0 then drop (nat (int (length xs) + i)) xs else drop (nat i) xs)"

subsection \<open>Dicts and truth values\<close>

text \<open>\<^verbatim>\<open>d.get(k, default)\<close>, \<^verbatim>\<open>d.setdefault(k, v)\<close> and \<^verbatim>\<open>d[k] = v\<close>.\<close>

definition get_or :: "dict \<Rightarrow> string \<Rightarrow> json \<Rightarrow> json" where
  "get_or d k dflt = (case map_of d k of Some v \<Rightarrow> v | None \<Rightarrow> dflt)"

definition setdefault :: "string \<Rightarrow> json \<Rightarrow> dict \<Rightarrow> dict" where
  "setdefault k v d = (case map_of d k of Some _ \<Rightarrow> d | None \<Rightarrow> d @ [(k, v)])"

definition set_item :: "string \<Rightarrow> json \<Rightarrow> dict \<Rightarrow> dict" where
  "set_item k v d = AList.update k v d"

text \<open>\<^verbatim>\<open>v.get(k, default)\<close> on any value: only a dict has the method.\<close>

definition attr_get :: "json \<Rightarrow> string \<Rightarrow> json \<Rightarrow> error + json" where
  "attr_get v k dflt = (case v of JObj d \<Rightarrow> Inr (get_or d k dflt) | _ \<Rightarrow> Inl AttributeError)"

text \<open>The truth value of a decoded value, as \<^verbatim>\<open>if\<close>, \<^verbatim>\<open>not\<close> and \<^verbatim>\<open>or\<close> read it.\<close>

fun truthy :: "json \<Rightarrow> bool" where
  "truthy JNull = False"
| "truthy (JBool b) = b"
| "truthy (JInt i) = (i \<noteq> 0)"
| "truthy (JFloat r) = (r \<noteq> ''0.0'' \<and> r \<noteq> ''-0.0'')"
| "truthy (JStr s) = (s \<noteq> [])"
| "truthy (JList xs) = (xs \<noteq> [])"
| "truthy (JObj d) = (d \<noteq> [])"

text \<open>
  What a \<^verbatim>\<open>for\<close> loop over a decoded value visits: the elements of a list, the
  characters of a string, the keys of a dict; the other values are not iterable.
\<close>

fun iter_items :: "json \<Rightarrow> error + json list" where
  "iter_items (JList xs) = Inr xs"
| "iter_items (JStr s) = Inr (map (\<lambda>c. JStr [c]) s)"
| "iter_items (JObj d) = Inr (map (\<lambda>kv. JStr (fst kv)) d)"
| "iter_items _ = Inl TypeError"

section \<open>Normalisation of an index document\<close>

text \<open>
  \<^verbatim>\<open>normalize_index\<close> (lines 330 to 350). A value that is not a dict is replaced by the
  empty dict; every schema key that is absent gets its default; \<^verbatim>\<open>detail_index\<close> is
  replaced when it is not a dict and its \<^verbatim>\<open>resolutions\<close> when that is not a list. No
  other value that is present is looked at.
\<close>

definition empty_environment :: json where
  "empty_environment =
     JObj [(''os'', JNull), (''runtime'', JNull), (''tools'', JList []), (''paths'', JList [])]"

definition empty_detail_index :: json where
  "empty_detail_index = JObj [(''resolutions'', JList [])]"

definition normalize_detail_index :: "dict \<Rightarrow> dict" where
  "normalize_detail_index di =
     (let di1 = setdefault ''resolutions'' (JList []) di
      in case map_of di1 ''resolutions'' of
           Some (JList _) \<Rightarrow> di1
         | _ \<Rightarrow> set_item ''resolutions'' (JList []) di1)"

definition normalize_index :: "json \<Rightarrow> dict" where
  "normalize_index obj =
     (let o0 = (case obj of JObj d \<Rightarrow> d | _ \<Rightarrow> []);
          o1 = setdefault ''context_version'' (JStr ''v2'') o0;
          o2 = setdefault ''project'' (JStr ''unknown'') o1;
          o3 = setdefault ''current_state'' (JStr []) o2;
          o4 = setdefault ''goals'' (JList []) o3;
          o5 = setdefault ''constraints'' (JList []) o4;
          o6 = setdefault ''environment'' empty_environment o5;
          o7 = setdefault ''verified_facts'' (JList []) o6;
          o8 = setdefault ''next_actions'' (JList []) o7;
          o9 = setdefault ''detail_index'' empty_detail_index o8;
          o10 = (case map_of o9 ''detail_index'' of
                   Some (JObj _) \<Rightarrow> o9
                 | _ \<Rightarrow> set_item ''detail_index'' empty_detail_index o9);
          di = (case map_of o10 ''detail_index'' of Some (JObj d) \<Rightarrow> d | _ \<Rightarrow> [])
      in set_item ''detail_index'' (JObj (normalize_detail_index di)) o10)"

section \<open>The merge policies\<close>

text \<open>
  \<^verbatim>\<open>unique_list_merge\<close> (lines 352 to 370). The key of an item is its serialisation
  with sorted keys, or its \<^verbatim>\<open>str\<close> when the serialisation raises. The inner loop
  appends an item whose key was not seen; an argument that is not a list is skipped.
\<close>

definition item_key :: "pylib \<Rightarrow> json \<Rightarrow> string" where
  "item_key L item = (case json_dumps L item of Some k \<Rightarrow> k | None \<Rightarrow> py_str L item)"

fun merge_loop :: "pylib \<Rightarrow> json list \<Rightarrow> json list \<times> string set \<Rightarrow> json list \<times> string set"
where
  "merge_loop L [] (out, seen) = (out, seen)"
| "merge_loop L (item # arr) (out, seen) =
     (let k = item_key L item
      in if k \<in> seen then merge_loop L arr (out, seen)
         else merge_loop L arr (out @ [item], insert k seen))"

definition unique_list_merge :: "pylib \<Rightarrow> json \<Rightarrow> json \<Rightarrow> json list" where
  "unique_list_merge L a b =
     (let s0 = ([], {});
          s1 = (case a of JList xs \<Rightarrow> merge_loop L xs s0 | _ \<Rightarrow> s0);
          s2 = (case b of JList ys \<Rightarrow> merge_loop L ys s1 | _ \<Rightarrow> s1)
      in fst s2)"

text \<open>
  \<^verbatim>\<open>merge_resolution_index_items\<close> (lines 372 to 390). Each of the two loops runs over
  \<^verbatim>\<open>items or []\<close> and keeps a dict whose \<^verbatim>\<open>id\<close> is a string that was not seen.
\<close>

fun res_loop :: "json list \<Rightarrow> json list \<times> string set \<Rightarrow> json list \<times> string set" where
  "res_loop [] (out, seen) = (out, seen)"
| "res_loop (it # its) (out, seen) =
     (case it of
        JObj d \<Rightarrow>
          (case map_of d ''id'' of
             Some (JStr rid) \<Rightarrow>
               if rid \<notin> seen then res_loop its (out @ [it], insert rid seen)
               else res_loop its (out, seen)
           | _ \<Rightarrow> res_loop its (out, seen))
      | _ \<Rightarrow> res_loop its (out, seen))"

definition or_empty :: "json \<Rightarrow> json" where
  "or_empty v = (if truthy v then v else JList [])"

definition merge_resolution_index_items :: "json \<Rightarrow> json \<Rightarrow> error + json list" where
  "merge_resolution_index_items existing_items incoming_items =
     (case iter_items (or_empty existing_items) of
        Inl e \<Rightarrow> Inl e
      | Inr xs \<Rightarrow>
          (case iter_items (or_empty incoming_items) of
             Inl e \<Rightarrow> Inl e
           | Inr ys \<Rightarrow> Inr (fst (res_loop ys (res_loop xs ([], {}))))))"

text \<open>
  The merge of the incoming index into the persisted one: step 4 of
  \<^verbatim>\<open>parse_model_output_to_context\<close> (lines 497 to 524). \<^verbatim>\<open>project\<close>,
  \<^verbatim>\<open>current_state\<close> and \<^verbatim>\<open>next_actions\<close> take the incoming value when the incoming
  dict has the key; the three list fields and the tools and paths of the environment are
  merged by \<^const>\<open>unique_list_merge\<close>; the environment is rebuilt with its four keys; the
  directory of resolutions is merged by id.
\<close>

definition merge_environment :: "pylib \<Rightarrow> dict \<Rightarrow> dict \<Rightarrow> json" where
  "merge_environment L merged incoming =
     (let env_old = (case map_of merged ''environment'' of Some (JObj e) \<Rightarrow> e | _ \<Rightarrow> []);
          env_new = (case map_of incoming ''environment'' of Some (JObj e) \<Rightarrow> e | _ \<Rightarrow> [])
      in JObj
          [(''os'', get_or env_new ''os'' (get_or env_old ''os'' JNull)),
           (''runtime'', get_or env_new ''runtime'' (get_or env_old ''runtime'' JNull)),
           (''tools'', JList (unique_list_merge L (get_or env_old ''tools'' (JList []))
              (get_or env_new ''tools'' (JList [])))),
           (''paths'', JList (unique_list_merge L (get_or env_old ''paths'' (JList []))
              (get_or env_new ''paths'' (JList []))))])"

definition merge_fields :: "pylib \<Rightarrow> dict \<Rightarrow> dict \<Rightarrow> dict" where
  "merge_fields L existing_index incoming_index =
     (let m0 = existing_index;
          m1 = set_item ''project''
                 (get_or incoming_index ''project'' (get_or m0 ''project'' JNull)) m0;
          m2 = set_item ''current_state''
                 (get_or incoming_index ''current_state'' (get_or m1 ''current_state'' JNull)) m1;
          m3 = set_item ''next_actions''
                 (get_or incoming_index ''next_actions'' (get_or m2 ''next_actions'' JNull)) m2;
          m4 = set_item ''goals''
                 (JList (unique_list_merge L (get_or m3 ''goals'' (JList []))
                    (get_or incoming_index ''goals'' (JList [])))) m3;
          m5 = set_item ''constraints''
                 (JList (unique_list_merge L (get_or m4 ''constraints'' (JList []))
                    (get_or incoming_index ''constraints'' (JList [])))) m4;
          m6 = set_item ''verified_facts''
                 (JList (unique_list_merge L (get_or m5 ''verified_facts'' (JList []))
                    (get_or incoming_index ''verified_facts'' (JList [])))) m5
      in set_item ''environment'' (merge_environment L m6 incoming_index) m6)"

definition merge_index :: "pylib \<Rightarrow> dict \<Rightarrow> dict \<Rightarrow> error + dict" where
  "merge_index L existing_index incoming_index =
     (let merged = merge_fields L existing_index incoming_index
      in case attr_get (get_or merged ''detail_index'' (JObj [])) ''resolutions'' (JList []) of
           Inl e \<Rightarrow> Inl e
         | Inr old_items \<Rightarrow>
             (case attr_get (get_or incoming_index ''detail_index'' (JObj []))
                     ''resolutions'' (JList []) of
                Inl e \<Rightarrow> Inl e
              | Inr new_items \<Rightarrow>
                  (case merge_resolution_index_items old_items new_items of
                     Inl e \<Rightarrow> Inl e
                   | Inr items \<Rightarrow>
                       (case map_of merged ''detail_index'' of
                          None \<Rightarrow> Inl KeyError
                        | Some (JObj di) \<Rightarrow>
                            Inr (set_item ''detail_index''
                                  (JObj (set_item ''resolutions'' (JList items) di)) merged)
                        | Some _ \<Rightarrow> Inl TypeError))))"

section \<open>The resolution store\<close>

text \<open>
  The persisted store: the directory \<^verbatim>\<open>context/resolutions\<close>, a finite table from
  file names to the documents they hold, and the file \<^verbatim>\<open>context/index.json\<close>, which is
  missing, or does not decode, or holds a document. The directory is writable and holds
  plain files only.
\<close>

type_synonym directory = "(string \<times> json) list"

datatype index_file = Missing | Unreadable | Stored json

record store =
  resolutions :: directory
  index :: index_file

text \<open>
  \<^verbatim>\<open>open(os.path.join(res_dir, name), "w", encoding="utf-8")\<close> (line 463) on such a
  directory. Python raises \<^verbatim>\<open>ValueError\<close> for a path with a NUL before it calls the
  system. The system refuses a name with a path separator, since the directory has no
  subdirectory (\<^verbatim>\<open>ENOENT\<close>, \<^verbatim>\<open>ENOTDIR\<close>), and a name of more than 255 bytes, the
  limit of the file systems of Linux (\<^verbatim>\<open>ENAMETOOLONG\<close>), both as \<^verbatim>\<open>OSError\<close>. The bytes of a name are those of its
  UTF-8 encoding: one for a code point below 128, two for the others below 256.
\<close>

definition name_max :: nat where
  "name_max = 255"

definition utf8_length :: "string \<Rightarrow> nat" where
  "utf8_length s = length s + length (filter (\<lambda>c. 128 \<le> (of_char c :: nat)) s)"

definition open_error :: "string \<Rightarrow> error option" where
  "open_error name =
     (if CHR 0x00 \<in> set name then Some EmbeddedNul
      else if CHR ''/'' \<in> set name \<or> name_max < utf8_length name then Some OSError
      else None)"

definition path_ok :: "string \<Rightarrow> bool" where
  "path_ok name = (open_error name = None)"

text \<open>
  \<^verbatim>\<open>os.path.exists\<close>, and the write of a document to a file, which creates the file or
  replaces what it held.
\<close>

definition path_exists :: "string \<Rightarrow> directory \<Rightarrow> bool" where
  "path_exists name d = (map_of d name \<noteq> None)"

definition write_file :: "string \<Rightarrow> json \<Rightarrow> directory \<Rightarrow> error + directory" where
  "write_file name doc d =
     (case open_error name of Some e \<Rightarrow> Inl e | None \<Rightarrow> Inr (AList.update name doc d))"

subsection \<open>Identifiers\<close>

text \<open>\<^verbatim>\<open>f"res-{n:03d}"\<close>: the decimal digits of \<open>n\<close>, padded with zeros to three.\<close>

definition digit_char :: "nat \<Rightarrow> char" where
  "digit_char d = ''0123456789'' ! d"

function dec :: "nat \<Rightarrow> string" where
  "dec n = (if n < 10 then [digit_char n] else dec (n div 10) @ [digit_char (n mod 10)])"
  by pat_completeness auto
termination
  by (relation "measure id") auto

declare dec.simps [simp del]

definition format_03d :: "nat \<Rightarrow> string" where
  "format_03d n = replicate (3 - length (dec n)) CHR ''0'' @ dec n"

definition res_id :: "nat \<Rightarrow> string" where
  "res_id n = ''res-'' @ format_03d n"

text \<open>
  The ids that \<^verbatim>\<open>allocate_next_res_id\<close> reads off the directory listing (lines 394 to
  397): the names that start with \<^verbatim>\<open>res-\<close> and end with \<^verbatim>\<open>.json\<close>, without their last
  five characters.
\<close>

definition existing_ids :: "directory \<Rightarrow> string fset" where
  "existing_ids d =
     fset_of_list (map (\<lambda>name. take (length name - 5) name)
       (filter (\<lambda>name. startswith name ''res-'' \<and> endswith name ''.json'') (map fst d)))"

text \<open>
  Reading a padded decimal back gives the number, so \<^const>\<open>res_id\<close> is injective: the
  scan of \<^verbatim>\<open>allocate_next_res_id\<close> never meets the same id twice.
\<close>

definition digit_val :: "char \<Rightarrow> nat" where
  "digit_val c = of_char c - 48"

definition undec :: "string \<Rightarrow> nat" where
  "undec s = foldl (\<lambda>a c. 10 * a + digit_val c) 0 s"

lemma digit_val_digit_char: "d < 10 \<Longrightarrow> digit_val (digit_char d) = d"
proof -
  assume "d < 10"
  then have "d \<in> {0, 1, 2, 3, 4, 5, 6, 7, 8, 9}" by auto
  then show ?thesis
    by (auto simp: digit_val_def digit_char_def)
qed

lemma undec_snoc: "undec (s @ [c]) = 10 * undec s + digit_val c"
  by (simp add: undec_def)

lemma undec_dec: "undec (dec n) = n"
proof (induction n rule: dec.induct)
  case (1 n)
  show ?case
  proof (cases "n < 10")
    case True
    then show ?thesis
      by (subst dec.simps) (simp add: undec_def digit_val_digit_char)
  next
    case False
    then have "undec (dec (n div 10)) = n div 10" using "1" by simp
    with False show ?thesis
      by (subst dec.simps) (simp add: undec_snoc digit_val_digit_char)
  qed
qed

lemma undec_zeros: "undec (replicate k CHR ''0'' @ s) = undec s"
proof -
  have "foldl (\<lambda>a c. 10 * a + digit_val c) 0 (replicate k CHR ''0'') = 0"
    by (induction k) (simp_all add: digit_val_def)
  then show ?thesis by (simp add: undec_def)
qed

lemma res_id_inj: "res_id m = res_id n \<Longrightarrow> m = n"
proof -
  assume "res_id m = res_id n"
  then have "undec (format_03d m) = undec (format_03d n)"
    by (simp add: res_id_def)
  then show "m = n"
    by (simp add: format_03d_def undec_zeros undec_dec)
qed

lemma finite_res_id_vimage: "finite {m. res_id m |\<in>| A}"
proof -
  have "{m. res_id m |\<in>| A} = res_id -` fset A" by auto
  moreover have "inj res_id" by (auto simp: inj_on_def dest: res_id_inj)
  ultimately show ?thesis by (simp add: finite_vimageI)
qed

text \<open>
  \<^verbatim>\<open>allocate_next_res_id\<close> (lines 392 to 404): the scan \<^verbatim>\<open>n = 1, 2, ...\<close> returns the
  first \<^verbatim>\<open>res-NNN\<close> that is neither among the ids on disk nor reserved, and reserves
  it. The scan ends because both sets are finite.
\<close>

function alloc_loop :: "string fset \<Rightarrow> string fset \<Rightarrow> nat \<Rightarrow> string \<times> string fset" where
  "alloc_loop existing reserved n =
     (let rid = res_id n
      in if rid |\<notin>| existing \<and> rid |\<notin>| reserved then (rid, finsert rid reserved)
         else alloc_loop existing reserved (n + 1))"
  by pat_completeness auto
termination
proof (relation "measure (\<lambda>(existing, reserved, n).
    Suc (Max (insert 0 {m. res_id m |\<in>| existing |\<union>| reserved})) - n)", goal_cases)
  case 1
  show ?case by simp
next
  case (2 existing reserved n rid)
  let ?S = "insert 0 {m. res_id m |\<in>| existing |\<union>| reserved}"
  have fin: "finite ?S" by (simp add: finite_res_id_vimage)
  from 2 have "n \<in> ?S" by auto
  with fin have "n \<le> Max ?S" by (rule Max_ge)
  then show ?case by simp
qed

declare alloc_loop.simps [simp del]

definition allocate_next_res_id :: "directory \<Rightarrow> string fset \<Rightarrow> string \<times> string fset" where
  "allocate_next_res_id res_dir reserved = alloc_loop (existing_ids res_dir) reserved 1"

section \<open>Parsing the reply and writing the store\<close>

subsection \<open>The two file blocks\<close>

text \<open>
  \<^verbatim>\<open>FILE_BLOCK_RE.search\<close> (lines 27 to 31, 413). The pattern is
  \<^verbatim>\<open>===FILE:index\.json===\s*(?P<index>.*?)\s*===END_FILE===\s*\<close>
  \<^verbatim>\<open>===FILE:resolutions\.ndjson===\s*(?P<ndjson>.*?)\s*===END_FILE===\<close> with
  \<^verbatim>\<open>re.DOTALL\<close>. The search tries the start positions from the left. At one position,
  a greedy \<^verbatim>\<open>\s*\<close> in front of a literal that starts with \<^verbatim>\<open>=\<close> takes all the
  white space there is, and a lazy group takes the fewest characters after which the rest
  of the pattern matches.
\<close>

definition index_marker :: string where
  "index_marker = ''===FILE:index.json===''"

definition ndjson_marker :: string where
  "ndjson_marker = ''===FILE:resolutions.ndjson===''"

definition end_marker :: string where
  "end_marker = ''===END_FILE===''"

definition match_literal :: "string \<Rightarrow> string \<Rightarrow> string option" where
  "match_literal lit s = (if startswith s lit then Some (drop (length lit) s) else None)"

text \<open>\<^verbatim>\<open>\s*\<close> and then a literal: what is left of the text.\<close>

definition match_ws_literal :: "string \<Rightarrow> string \<Rightarrow> string option" where
  "match_ws_literal lit s = match_literal lit (lstrip s)"

text \<open>A lazy \<^verbatim>\<open>(.*?)\<close> in front of the continuation \<open>k\<close>: the group and what \<open>k\<close> gives.\<close>

fun lazy_group :: "(string \<Rightarrow> 'a option) \<Rightarrow> string \<Rightarrow> (string \<times> 'a) option" where
  "lazy_group k [] = (case k [] of Some r \<Rightarrow> Some ([], r) | None \<Rightarrow> None)"
| "lazy_group k (c # cs) =
     (case k (c # cs) of
        Some r \<Rightarrow> Some ([], r)
      | None \<Rightarrow> (case lazy_group k cs of Some (g, r) \<Rightarrow> Some (c # g, r) | None \<Rightarrow> None))"

text \<open>The pattern after the \<^verbatim>\<open>index\<close> group: it gives the \<^verbatim>\<open>ndjson\<close> group.\<close>

definition match_tail :: "string \<Rightarrow> string option" where
  "match_tail s =
     (case match_ws_literal end_marker s of
        None \<Rightarrow> None
      | Some s1 \<Rightarrow>
          (case match_ws_literal ndjson_marker s1 of
             None \<Rightarrow> None
           | Some s2 \<Rightarrow>
               (case lazy_group (match_ws_literal end_marker) (lstrip s2) of
                  None \<Rightarrow> None
                | Some (ndjson, _) \<Rightarrow> Some ndjson)))"

definition match_here :: "string \<Rightarrow> (string \<times> string) option" where
  "match_here s =
     (case match_literal index_marker s of
        None \<Rightarrow> None
      | Some s1 \<Rightarrow> lazy_group match_tail (lstrip s1))"

fun file_block_search :: "string \<Rightarrow> (string \<times> string) option" where
  "file_block_search [] = match_here []"
| "file_block_search (c # cs) =
     (case match_here (c # cs) of Some r \<Rightarrow> Some r | None \<Rightarrow> file_block_search cs)"

subsection \<open>The lines of the NDJSON block\<close>

text \<open>
  \<^verbatim>\<open>str.splitlines()\<close>: a line ends at a line feed, a carriage return with or without
  a line feed after it, a vertical tab, a form feed, a separator 0x1C to 0x1E or NEL; a
  text that ends in a line boundary has no empty last line.
\<close>

definition is_linebreak :: "char \<Rightarrow> bool" where
  "is_linebreak c =
     (c \<in> set [CHR 0x0A, CHR 0x0B, CHR 0x0C, CHR 0x0D, CHR 0x1C, CHR 0x1D, CHR 0x1E, CHR 0x85])"

fun splitlines_from :: "string \<Rightarrow> string \<Rightarrow> string list" where
  "splitlines_from cur [] = (if cur = [] then [] else [rev cur])"
| "splitlines_from cur (c # cs) =
     (if c = CHR 0x0D \<and> cs \<noteq> [] \<and> hd cs = CHR 0x0A then rev cur # splitlines_from [] (tl cs)
      else if is_linebreak c then rev cur # splitlines_from [] cs
      else splitlines_from (c # cur) cs)"

definition splitlines :: "string \<Rightarrow> string list" where
  "splitlines s = splitlines_from [] s"

text \<open>\<^verbatim>\<open>[ln.strip() for ln in ndjson_text.splitlines() if ln.strip()]\<close> (line 444).\<close>

definition nonblank_lines :: "string \<Rightarrow> string list" where
  "nonblank_lines ndjson_text = filter (\<lambda>ln. ln \<noteq> []) (map strip (splitlines ndjson_text))"

subsection \<open>Writing the resolutions\<close>

text \<open>
  The state of the loop over the lines (lines 439 to 469): the directory, the remap from
  the id a record declared to the id it was written under, the ids written in order, and
  the ids reserved in this run.
\<close>

record run_state =
  files :: directory
  id_remap :: "string \<rightharpoonup> string"
  written_ids :: "string list"
  reserved_ids :: "string fset"

text \<open>
  One line. The line is decoded; \<^verbatim>\<open>obj.get("id")\<close> needs a dict; the id must be a string
  that starts with \<^verbatim>\<open>res-\<close>. When the file of the id exists or the id is reserved, a
  fresh id is allocated, recorded in the remap and written into the record; otherwise the
  id is reserved. The record is then written to the file of its id.
\<close>

definition process_line :: "pylib \<Rightarrow> string \<Rightarrow> run_state \<Rightarrow> error + run_state" where
  "process_line L ln st =
     (case json_loads L ln of
        None \<Rightarrow> Inl JSONDecodeError
      | Some (JObj obj) \<Rightarrow>
          (case get_or obj ''id'' JNull of
             JStr rid \<Rightarrow>
               if \<not> startswith rid ''res-'' then Inl (InvalidId (JStr rid))
               else if path_exists (rid @ ''.json'') (files st) \<or> rid |\<in>| reserved_ids st then
                 (let (new_rid, reserved) = allocate_next_res_id (files st) (reserved_ids st)
                  in case write_file (new_rid @ ''.json'')
                            (JObj (set_item ''id'' (JStr new_rid) obj)) (files st) of
                       Inl e \<Rightarrow> Inl e
                     | Inr d \<Rightarrow>
                         Inr \<lparr>files = d, id_remap = (id_remap st)(rid \<mapsto> new_rid),
                              written_ids = written_ids st @ [new_rid],
                              reserved_ids = reserved\<rparr>)
               else
                 (case write_file (rid @ ''.json'') (JObj obj) (files st) of
                    Inl e \<Rightarrow> Inl e
                  | Inr d \<Rightarrow>
                      Inr \<lparr>files = d, id_remap = id_remap st,
                           written_ids = written_ids st @ [rid],
                           reserved_ids = finsert rid (reserved_ids st)\<rparr>)
           | v \<Rightarrow> Inl (InvalidId v))
      | Some _ \<Rightarrow> Inl AttributeError)"

text \<open>
  The loop: it stops at the first line that raises, and the files written for the lines
  before it stay.
\<close>

fun write_resolutions :: "pylib \<Rightarrow> string list \<Rightarrow> run_state \<Rightarrow> error option \<times> run_state" where
  "write_resolutions L [] st = (None, st)"
| "write_resolutions L (ln # lns) st =
     (case process_line L ln st of
        Inl e \<Rightarrow> (Some e, st)
      | Inr st' \<Rightarrow> write_resolutions L lns st')"

subsection \<open>The directory entries of the incoming index\<close>

text \<open>
  Step 3 (lines 473 to 479) rewrites, in place, the id of every entry of the incoming
  directory whose id is a key of the remap. The lines after it (482 to 492) replace an
  empty directory by one minimal entry for each id written.
\<close>

definition remap_item :: "(string \<rightharpoonup> string) \<Rightarrow> json \<Rightarrow> json" where
  "remap_item remap it =
     (case it of
        JObj d \<Rightarrow>
          (case map_of d ''id'' of
             Some (JStr old) \<Rightarrow>
               (case remap old of Some new \<Rightarrow> JObj (set_item ''id'' (JStr new) d) | None \<Rightarrow> it)
           | _ \<Rightarrow> it)
      | _ \<Rightarrow> it)"

definition minimal_entry :: "string \<Rightarrow> json" where
  "minimal_entry rid =
     JObj [(''id'', JStr rid), (''problem_signature'', JStr []), (''summary'', JStr []),
       (''tags'', JList []), (''artifacts_touched'', JList [])]"

text \<open>The effect on the index of a change made to the list object of its directory.\<close>

definition map_resolutions :: "(json \<Rightarrow> json) \<Rightarrow> dict \<Rightarrow> dict" where
  "map_resolutions f idx =
     (case map_of idx ''detail_index'' of
        Some (JObj di) \<Rightarrow>
          (case map_of di ''resolutions'' of
             Some (JList its) \<Rightarrow>
               set_item ''detail_index'' (JObj (set_item ''resolutions'' (JList (map f its)) di)) idx
           | _ \<Rightarrow> idx)
      | _ \<Rightarrow> idx)"

text \<open>\<^verbatim>\<open>idx["detail_index"]["resolutions"] = items\<close>.\<close>

definition set_resolutions :: "json list \<Rightarrow> dict \<Rightarrow> error + dict" where
  "set_resolutions items idx =
     (case map_of idx ''detail_index'' of
        None \<Rightarrow> Inl KeyError
      | Some (JObj di) \<Rightarrow>
          Inr (set_item ''detail_index'' (JObj (set_item ''resolutions'' (JList items) di)) idx)
      | Some _ \<Rightarrow> Inl TypeError)"

definition reconcile_directory ::
  "(string \<rightharpoonup> string) \<Rightarrow> string list \<Rightarrow> dict \<Rightarrow> error + dict" where
  "reconcile_directory remap written incoming_index =
     (case attr_get (get_or incoming_index ''detail_index'' (JObj [])) ''resolutions'' (JList []) of
        Inl e \<Rightarrow> Inl e
      | Inr incoming_items \<Rightarrow>
          (let remapped = (case incoming_items of
                             JList _ \<Rightarrow> map_resolutions (remap_item remap) incoming_index
                           | _ \<Rightarrow> incoming_index)
           in if ((case incoming_items of JList its \<Rightarrow> its = [] | _ \<Rightarrow> True) \<and> written \<noteq> [])
              then set_resolutions (map minimal_entry written) remapped
              else Inr remapped))"

subsection \<open>The whole function\<close>

text \<open>
  \<^verbatim>\<open>parse_model_output_to_context\<close> (lines 406 to 534): the outcome, which is the final
  index or the exception, and the store as the call leaves it.
\<close>

definition read_existing_index :: "store \<Rightarrow> dict option" where
  "read_existing_index s = (case index s of Stored v \<Rightarrow> Some (normalize_index v) | _ \<Rightarrow> None)"

definition parse_model_output_to_context ::
  "pylib \<Rightarrow> string \<Rightarrow> store \<Rightarrow> (error + dict) \<times> store" where
  "parse_model_output_to_context L out_text s =
     (case file_block_search out_text of
        None \<Rightarrow> (Inl NoFileBlocks, s)
      | Some (index_text, ndjson) \<Rightarrow>
          (case json_loads L (strip index_text) of
             None \<Rightarrow> (Inl JSONDecodeError, s)
           | Some raw \<Rightarrow>
               (let incoming_index = normalize_index raw;
                    ndjson_text = strip ndjson;
                    existing_index = read_existing_index s;
                    (err, st) = write_resolutions L (nonblank_lines ndjson_text)
                       \<lparr>files = resolutions s, id_remap = Map.empty, written_ids = [],
                        reserved_ids = {||}\<rparr>;
                    s1 = s\<lparr>resolutions := files st\<rparr>
                in case err of
                     Some e \<Rightarrow> (Inl e, s1)
                   | None \<Rightarrow>
                       (case reconcile_directory (id_remap st) (written_ids st) incoming_index of
                          Inl e \<Rightarrow> (Inl e, s1)
                        | Inr incoming \<Rightarrow>
                            (case (case existing_index of
                                     Some merged \<Rightarrow>
                                       if truthy (JObj merged) then merge_index L merged incoming
                                       else Inr incoming
                                   | None \<Rightarrow> Inr incoming) of
                               Inl e \<Rightarrow> (Inl e, s1)
                             | Inr final_index \<Rightarrow>
                                 (Inr final_index, s1\<lparr>index := Stored (JObj final_index)\<rparr>))))))"

section \<open>The session material\<close>

subsection \<open>Collecting text\<close>

lemma size_map_of_less:
  "map_of d k = Some v \<Longrightarrow> size v < Suc (size_list (size_prod (\<lambda>_. 0) size) d)"
  by (induction d) (auto split: if_splits)

text \<open>
  \<^verbatim>\<open>collect_text_from_any\<close> (lines 56 to 89), as the list of the texts it appends to
  \<^verbatim>\<open>out\<close>, in order. A string gives its stripped text unless that is empty; a list gives
  the texts of its items; a dict gives its own \<^verbatim>\<open>text\<close> when its type is \<^verbatim>\<open>text\<close>,
  then the texts under \<^verbatim>\<open>content\<close>, \<^verbatim>\<open>message\<close> and \<^verbatim>\<open>input\<close>; any other
  value gives nothing.
\<close>

definition stripped_text :: "string \<Rightarrow> string list" where
  "stripped_text s = (let t = strip s in if t \<noteq> [] then [t] else [])"

function collect_text_from_any :: "json \<Rightarrow> string list" where
  "collect_text_from_any JNull = []"
| "collect_text_from_any (JStr s) = stripped_text s"
| "collect_text_from_any (JList xs) = concat (map collect_text_from_any xs)"
| "collect_text_from_any (JObj d) =
     (case get_or d ''text'' JNull of
        JStr s \<Rightarrow> if get_or d ''type'' JNull = JStr ''text'' then stripped_text s else []
      | _ \<Rightarrow> [])
     @ (case map_of d ''content'' of Some v \<Rightarrow> collect_text_from_any v | None \<Rightarrow> [])
     @ (case map_of d ''message'' of Some v \<Rightarrow> collect_text_from_any v | None \<Rightarrow> [])
     @ (case map_of d ''input'' of Some v \<Rightarrow> collect_text_from_any v | None \<Rightarrow> [])"
| "collect_text_from_any (JBool b) = []"
| "collect_text_from_any (JInt i) = []"
| "collect_text_from_any (JFloat r) = []"
  by pat_completeness auto
termination
proof (relation "measure size", goal_cases)
  case 1
  show ?case by simp
next
  case (2 xs x)
  then show ?case by (induction xs) auto
next
  case (3 d v)
  then show ?case by (simp add: size_map_of_less)
next
  case (4 d v)
  then show ?case by (simp add: size_map_of_less)
next
  case (5 d v)
  then show ?case by (simp add: size_map_of_less)
qed

text \<open>The block of text of a value: \<^verbatim>\<open>"\n".join([x for x in buf if x]).strip()\<close>.\<close>

definition text_block :: "json \<Rightarrow> string" where
  "text_block v = strip (join [CHR 0x0A] (filter (\<lambda>x. x \<noteq> []) (collect_text_from_any v)))"

text \<open>\<^verbatim>\<open>extract_text_from_message_obj\<close> (lines 91 to 101).\<close>

definition extract_text_from_message_obj :: "json \<Rightarrow> string" where
  "extract_text_from_message_obj msg_obj =
     (case msg_obj of JObj d \<Rightarrow> text_block (get_or d ''content'' JNull) | _ \<Rightarrow> [])"

subsection \<open>The five channels\<close>

record channels =
  summaries :: "string list"
  dialogue :: "string list"
  tool_uses :: "string list"
  tool_results :: "string list"
  tool_stats :: "string list"

text \<open>\<^verbatim>\<open>msg.get("content")\<close> of \<^verbatim>\<open>e.get("message")\<close> when that is a dict, as a list.\<close>

definition message_content_items :: "dict \<Rightarrow> json list" where
  "message_content_items e =
     (case get_or e ''message'' JNull of
        JObj msg \<Rightarrow> (case get_or msg ''content'' JNull of JList items \<Rightarrow> items | _ \<Rightarrow> [])
      | _ \<Rightarrow> [])"

text \<open>The descriptor of one item of an assistant message (lines 133 to 144).\<close>

definition tool_use_line :: "pylib \<Rightarrow> json \<Rightarrow> string list" where
  "tool_use_line L item =
     (case item of
        JObj d \<Rightarrow>
          if get_or d ''type'' JNull = JStr ''tool_use'' then
            (let name = get_or d ''name'' JNull;
                 tid = get_or d ''id'' JNull;
                 inp = get_or d ''input'' JNull;
                 desc = (case inp of
                           JObj i \<Rightarrow>
                             (case get_or i ''description'' JNull of
                                JStr t \<Rightarrow> t
                              | _ \<Rightarrow> (case get_or i ''prompt'' JNull of JStr t \<Rightarrow> t | _ \<Rightarrow> []))
                         | _ \<Rightarrow> []);
                 desc1 = filter (\<lambda>c. c \<noteq> CHR 0x0D) (strip desc)
             in [''- tool_use: '' @ py_str L name @ '' ('' @ py_str L tid @ '') '' @ take 600 desc1])
          else []
      | _ \<Rightarrow> [])"

text \<open>The output of one item of a user message (lines 152 to 157).\<close>

definition tool_result_block :: "json \<Rightarrow> string list" where
  "tool_result_block item =
     (case item of
        JObj d \<Rightarrow>
          if get_or d ''type'' JNull = JStr ''tool_result'' then
            (let block = text_block (get_or d ''content'' JNull)
             in if block \<noteq> [] then [block] else [])
          else []
      | _ \<Rightarrow> [])"

text \<open>The dialogue line of an event of type \<open>t\<close> (lines 160 to 171).\<close>

definition dialogue_line :: "string \<Rightarrow> dict \<Rightarrow> string list" where
  "dialogue_line t e =
     (case get_or e ''message'' JNull of
        JObj msg_obj \<Rightarrow>
          (let role0 = (let r = get_or msg_obj ''role'' JNull in if truthy r then r else JStr t);
               role = (case role0 of JStr r \<Rightarrow> strip r | _ \<Rightarrow> t);
               txt = extract_text_from_message_obj (JObj msg_obj)
           in if txt \<noteq> [] then [role @ '': '' @ txt] else [])
      | _ \<Rightarrow> [])"

text \<open>The statistics line and the output of a top-level result (lines 174 to 187).\<close>

definition tool_stats_line :: "pylib \<Rightarrow> dict \<Rightarrow> string" where
  "tool_stats_line L tur =
     ''- toolUseResult: status='' @ py_str L (get_or tur ''status'' JNull)
     @ '', agentId='' @ py_str L (get_or tur ''agentId'' JNull)
     @ '', totalTokens='' @ py_str L (get_or tur ''totalTokens'' JNull)
     @ '', durationMs='' @ py_str L (get_or tur ''totalDurationMs'' JNull)"

text \<open>
  One turn of the loop over the events (lines 118 to 187). A summary event gives its
  stripped summary and nothing else; any other dict goes through the four later steps.
\<close>

definition classify_other :: "pylib \<Rightarrow> dict \<Rightarrow> channels \<Rightarrow> channels" where
  "classify_other L e ch =
     (let ty = get_or e ''type'' JNull;
          ch1 = (if ty = JStr ''assistant''
                 then ch\<lparr>tool_uses := tool_uses ch
                        @ concat (map (tool_use_line L) (message_content_items e))\<rparr>
                 else ch);
          ch2 = (if ty = JStr ''user''
                 then ch1\<lparr>tool_results := tool_results ch1
                        @ concat (map tool_result_block (message_content_items e))\<rparr>
                 else ch1);
          ch3 = (case ty of
                   JStr t \<Rightarrow>
                     if t = ''user'' \<or> t = ''assistant''
                     then ch2\<lparr>dialogue := dialogue ch2 @ dialogue_line t e\<rparr>
                     else ch2
                 | _ \<Rightarrow> ch2)
      in case get_or e ''toolUseResult'' JNull of
           JObj tur \<Rightarrow>
             ch3\<lparr>tool_stats := tool_stats ch3 @ [tool_stats_line L tur],
                  tool_results := tool_results ch3
                    @ (let block = text_block (get_or tur ''content'' JNull)
                       in if block \<noteq> [] then [block] else [])\<rparr>
         | _ \<Rightarrow> ch3)"

definition classify_event :: "pylib \<Rightarrow> json \<Rightarrow> channels \<Rightarrow> channels" where
  "classify_event L ev ch =
     (case ev of
        JObj e \<Rightarrow>
          (case get_or e ''summary'' JNull of
             JStr s \<Rightarrow>
               if get_or e ''type'' JNull = JStr ''summary''
               then ch\<lparr>summaries := summaries ch @ [strip s]\<rparr>
               else classify_other L e ch
           | _ \<Rightarrow> classify_other L e ch)
      | _ \<Rightarrow> ch)"

definition collect_channels :: "pylib \<Rightarrow> json list \<Rightarrow> channels" where
  "collect_channels L events =
     foldl (\<lambda>ch ev. classify_event L ev ch)
       \<lparr>summaries = [], dialogue = [], tool_uses = [], tool_results = [], tool_stats = []\<rparr>
       events"

subsection \<open>The digest\<close>

text \<open>
  The titles of the five sections are Chinese text, outside the code points modelled, and
  stay parameters.
\<close>

record titles =
  summary_title :: string
  tool_use_title :: string
  tool_stats_title :: string
  tool_result_title :: string
  dialogue_title :: string

text \<open>The list \<^verbatim>\<open>material\<close> (lines 189 to 214).\<close>

definition material_lines :: "titles \<Rightarrow> channels \<Rightarrow> string list" where
  "material_lines T ch =
     (if summaries ch \<noteq> []
      then [summary_title T] @ map (\<lambda>s. ''- '' @ s) (slice_from (- 80) (summaries ch)) @ [[]]
      else [])
     @ (if tool_uses ch \<noteq> []
        then [tool_use_title T] @ slice_from (- 120) (tool_uses ch) @ [[]]
        else [])
     @ (if tool_stats ch \<noteq> []
        then [tool_stats_title T] @ slice_from (- 120) (tool_stats ch) @ [[]]
        else [])
     @ (if tool_results ch \<noteq> []
        then [tool_result_title T]
          @ concat (map (\<lambda>block. [take 20000 block, [CHR 0x0A, CHR ''-'', CHR ''-'', CHR ''-'', CHR 0x0A]])
              (slice_from (- 120) (tool_results ch)))
        else [])
     @ (if dialogue ch \<noteq> []
        then [dialogue_title T] @ slice_from (- 120) (dialogue ch)
        else [])"

text \<open>\<^verbatim>\<open>build_session_material\<close> (lines 103 to 217).\<close>

definition build_session_material :: "pylib \<Rightarrow> titles \<Rightarrow> json list \<Rightarrow> int \<Rightarrow> string" where
  "build_session_material L T events max_chars =
     (let blob = strip (join [CHR 0x0A] (material_lines T (collect_channels L events)))
      in slice_from (- max_chars) blob)"

text \<open>
  The default of \<^verbatim>\<open>max_chars\<close> (line 103). The one call of the function, in
  \<^verbatim>\<open>main\<close> (line 564), passes the events only.
\<close>

definition default_max_chars :: int where
  "default_max_chars = 60000"

section \<open>A concrete library for examples\<close>

text \<open>
  For running the model on examples: \<^verbatim>\<open>json.dumps(item, ensure_ascii=False,
  sort_keys=True)\<close> and \<^verbatim>\<open>str\<close> as CPython computes them on decoded values, and a
  \<^verbatim>\<open>json.loads\<close> that knows the texts of a finite table.
\<close>

definition hex_digit :: "nat \<Rightarrow> char" where
  "hex_digit d = ''0123456789abcdef'' ! d"

definition show_int :: "int \<Rightarrow> string" where
  "show_int i = (if i < 0 then CHR ''-'' # dec (nat (- i)) else dec (nat i))"

text \<open>The escapes of \<^verbatim>\<open>json.dumps\<close> with \<^verbatim>\<open>ensure_ascii=False\<close>.\<close>

definition dumps_char :: "char \<Rightarrow> string" where
  "dumps_char c =
     (if c = CHR 0x22 then [CHR 0x5C, CHR 0x22]
      else if c = CHR 0x5C then [CHR 0x5C, CHR 0x5C]
      else if c = CHR 0x08 then [CHR 0x5C, CHR ''b'']
      else if c = CHR 0x0C then [CHR 0x5C, CHR ''f'']
      else if c = CHR 0x0A then [CHR 0x5C, CHR ''n'']
      else if c = CHR 0x0D then [CHR 0x5C, CHR ''r'']
      else if c = CHR 0x09 then [CHR 0x5C, CHR ''t'']
      else if (of_char c :: nat) < 32
        then [CHR 0x5C, CHR ''u'', CHR ''0'', CHR ''0'',
              hex_digit (of_char c div 16), hex_digit (of_char c mod 16)]
      else [c])"

definition dumps_str :: "string \<Rightarrow> string" where
  "dumps_str s = [CHR 0x22] @ concat (map dumps_char s) @ [CHR 0x22]"

definition dumps_float :: "string \<Rightarrow> string" where
  "dumps_float r =
     (if r = ''nan'' then ''NaN'' else if r = ''inf'' then ''Infinity''
      else if r = ''-inf'' then ''-Infinity'' else r)"

lemma size_snd_less:
  "(k, v) \<in> set d \<Longrightarrow> size v < Suc (size_list (size_prod (\<lambda>_. 0) size) d)"
  by (induction d) auto

function dumps_sorted :: "json \<Rightarrow> string" where
  "dumps_sorted JNull = ''null''"
| "dumps_sorted (JBool b) = (if b then ''true'' else ''false'')"
| "dumps_sorted (JInt i) = show_int i"
| "dumps_sorted (JFloat r) = dumps_float r"
| "dumps_sorted (JStr s) = dumps_str s"
| "dumps_sorted (JList xs) = ''['' @ join '', '' (map dumps_sorted xs) @ '']''"
| "dumps_sorted (JObj d) =
     ''{'' @ join '', '' (map (\<lambda>(k, v). dumps_str k @ '': '' @ dumps_sorted v) (sort_key fst d))
     @ ''}''"
  by pat_completeness auto
termination
proof (relation "measure size", goal_cases)
  case 1
  show ?case by simp
next
  case (2 xs x)
  then show ?case by (induction xs) auto
next
  case (3 d kv k v)
  then have "(k, v) \<in> set d" by simp
  then show ?case by (simp add: size_snd_less)
qed

text \<open>\<^verbatim>\<open>repr\<close> of a string and of a decoded value, and \<^verbatim>\<open>str\<close>.\<close>

definition repr_quote :: "string \<Rightarrow> char" where
  "repr_quote s = (if CHR 0x27 \<in> set s \<and> CHR 0x22 \<notin> set s then CHR 0x22 else CHR 0x27)"

definition repr_char :: "char \<Rightarrow> char \<Rightarrow> string" where
  "repr_char q c =
     (let n = (of_char c :: nat)
      in if c = q \<or> c = CHR 0x5C then [CHR 0x5C, c]
         else if c = CHR 0x09 then [CHR 0x5C, CHR ''t'']
         else if c = CHR 0x0A then [CHR 0x5C, CHR ''n'']
         else if c = CHR 0x0D then [CHR 0x5C, CHR ''r'']
         else if n < 32 \<or> n = 127 \<or> (128 \<le> n \<and> n \<le> 160) \<or> n = 173
           then [CHR 0x5C, CHR ''x'', hex_digit (n div 16), hex_digit (n mod 16)]
         else [c])"

definition repr_str :: "string \<Rightarrow> string" where
  "repr_str s = (let q = repr_quote s in [q] @ concat (map (repr_char q) s) @ [q])"

function py_repr :: "json \<Rightarrow> string" where
  "py_repr JNull = ''None''"
| "py_repr (JBool b) = (if b then ''True'' else ''False'')"
| "py_repr (JInt i) = show_int i"
| "py_repr (JFloat r) = r"
| "py_repr (JStr s) = repr_str s"
| "py_repr (JList xs) = ''['' @ join '', '' (map py_repr xs) @ '']''"
| "py_repr (JObj d) =
     ''{'' @ join '', '' (map (\<lambda>(k, v). repr_str k @ '': '' @ py_repr v) d) @ ''}''"
  by pat_completeness auto
termination
proof (relation "measure size", goal_cases)
  case 1
  show ?case by simp
next
  case (2 xs x)
  then show ?case by (induction xs) auto
next
  case (3 d kv k v)
  then have "(k, v) \<in> set d" by simp
  then show ?case by (simp add: size_snd_less)
qed

definition str_builtin :: "json \<Rightarrow> string" where
  "str_builtin v = (case v of JStr s \<Rightarrow> s | _ \<Rightarrow> py_repr v)"

definition table_lib :: "(string \<times> json) list \<Rightarrow> pylib" where
  "table_lib tab =
     \<lparr>json_loads = map_of tab, json_dumps = (\<lambda>v. Some (dumps_sorted v)), py_str = str_builtin\<rparr>"

section \<open>Vocabulary of the properties\<close>

text \<open>
  The words of the specification, next to the code.
\<close>

subsection \<open>Merging\<close>

text \<open>
  \<open>first_seen key xs\<close> is the deduplication that the specification describes: every entry
  is kept where it is first seen, and the later entries with the same key are dropped.
  \<open>entries\<close> are the entries of a list field, none when the field is not a list;
  \<open>entry_id\<close> is the id of a directory entry, if it is a dict with a string id, and
  \<open>directory_entries\<close> are the entries that have one; \<open>directory_of\<close> is the list
  \<^verbatim>\<open>detail_index.resolutions\<close> of an index and \<open>environment_of\<close> its environment.
\<close>

fun first_seen :: "('a \<Rightarrow> 'k) \<Rightarrow> 'a list \<Rightarrow> 'a list" where
  "first_seen key [] = []"
| "first_seen key (x # xs) = x # first_seen key (filter (\<lambda>y. key y \<noteq> key x) xs)"

definition entries :: "json \<Rightarrow> json list" where
  "entries v = (case v of JList xs \<Rightarrow> xs | _ \<Rightarrow> [])"

definition entry_id :: "json \<Rightarrow> string option" where
  "entry_id it =
     (case it of
        JObj d \<Rightarrow> (case map_of d ''id'' of Some (JStr rid) \<Rightarrow> Some rid | _ \<Rightarrow> None)
      | _ \<Rightarrow> None)"

definition directory_entries :: "json list \<Rightarrow> json list" where
  "directory_entries its = filter (\<lambda>it. entry_id it \<noteq> None) its"

definition directory_of :: "dict \<Rightarrow> json list option" where
  "directory_of idx =
     (case map_of idx ''detail_index'' of
        Some (JObj di) \<Rightarrow> (case map_of di ''resolutions'' of Some (JList its) \<Rightarrow> Some its | _ \<Rightarrow> None)
      | _ \<Rightarrow> None)"

definition environment_of :: "dict \<Rightarrow> dict" where
  "environment_of idx = (case map_of idx ''environment'' of Some (JObj e) \<Rightarrow> e | _ \<Rightarrow> [])"

subsection \<open>Normalized indexes\<close>

text \<open>
  \<open>is_normalized\<close> says that every key of the schema is there and that the directory is a
  list inside a dict; \<open>schema_defaults\<close> is the index of the defaults.
\<close>

definition schema_keys :: "string list" where
  "schema_keys = [''context_version'', ''project'', ''current_state'', ''goals'', ''constraints'',
     ''environment'', ''verified_facts'', ''next_actions'', ''detail_index'']"

definition is_normalized :: "dict \<Rightarrow> bool" where
  "is_normalized idx = ((\<forall>k\<in>set schema_keys. map_of idx k \<noteq> None) \<and> directory_of idx \<noteq> None)"

definition as_dict :: "json \<Rightarrow> dict" where
  "as_dict v = (case v of JObj d \<Rightarrow> d | _ \<Rightarrow> [])"

definition schema_defaults :: dict where
  "schema_defaults =
     [(''context_version'', JStr ''v2''), (''project'', JStr ''unknown''),
      (''current_state'', JStr []), (''goals'', JList []), (''constraints'', JList []),
      (''environment'', empty_environment), (''verified_facts'', JList []),
      (''next_actions'', JList []), (''detail_index'', empty_detail_index)]"

definition with_defaults :: "dict \<Rightarrow> dict" where
  "with_defaults d =
     setdefault ''detail_index'' empty_detail_index
      (setdefault ''next_actions'' (JList [])
        (setdefault ''verified_facts'' (JList [])
          (setdefault ''environment'' empty_environment
            (setdefault ''constraints'' (JList [])
              (setdefault ''goals'' (JList [])
                (setdefault ''current_state'' (JStr [])
                  (setdefault ''project'' (JStr ''unknown'')
                    (setdefault ''context_version'' (JStr ''v2'') d))))))))"

subsection \<open>The reply and the run\<close>

text \<open>
  \<open>has_file_blocks\<close> says that a text holds the two blocks: the index marker, a text, the
  end marker, white space, the NDJSON marker, a text, the end marker. \<open>reply_lines\<close> and
  \<open>reply_index\<close> are the lines and the normalized index that a call reads from a reply,
  \<open>initial_state\<close> is the state in which the loop over the lines starts, and an id
  \<open>collides\<close> when its file exists or it is reserved. \<open>run_inv\<close> is the invariant of the
  loop. \<open>spec_id_shape\<close> is the shape \<^verbatim>\<open>res-NNN\<close> of the specification: the prefix and
  digits after it. \<open>incoming_directory\<close> is the directory of the incoming index as the
  merge receives it.
\<close>

definition has_file_blocks :: "string \<Rightarrow> bool" where
  "has_file_blocks t =
     (\<exists>pre idx ws nd post.
        t = pre @ index_marker @ idx @ end_marker @ ws @ ndjson_marker @ nd @ end_marker @ post
        \<and> (\<forall>c\<in>set ws. is_space c))"

definition reply_lines :: "string \<Rightarrow> string list" where
  "reply_lines out_text =
     (case file_block_search out_text of
        Some (index_text, ndjson) \<Rightarrow> nonblank_lines (strip ndjson)
      | None \<Rightarrow> [])"

definition reply_index :: "pylib \<Rightarrow> string \<Rightarrow> dict option" where
  "reply_index L out_text =
     (case file_block_search out_text of
        Some (index_text, ndjson) \<Rightarrow> map_option normalize_index (json_loads L (strip index_text))
      | None \<Rightarrow> None)"

definition initial_state :: "store \<Rightarrow> run_state" where
  "initial_state s =
     \<lparr>files = resolutions s, id_remap = Map.empty, written_ids = [], reserved_ids = {||}\<rparr>"

definition collides :: "string \<Rightarrow> run_state \<Rightarrow> bool" where
  "collides rid st = (path_exists (rid @ ''.json'') (files st) \<or> rid |\<in>| reserved_ids st)"

definition run_inv :: "directory \<Rightarrow> run_state \<Rightarrow> bool" where
  "run_inv d0 st =
     (fset (reserved_ids st) = set (written_ids st)
      \<and> distinct (written_ids st)
      \<and> (\<forall>rid\<in>set (written_ids st).
            map_of d0 (rid @ ''.json'') = None
            \<and> (\<exists>obj. map_of (files st) (rid @ ''.json'') = Some (JObj obj)
                  \<and> map_of obj ''id'' = Some (JStr rid)))
      \<and> (\<forall>name. name \<notin> (\<lambda>rid. rid @ ''.json'') ` set (written_ids st) \<longrightarrow>
            map_of (files st) name = map_of d0 name))"

definition spec_id_shape :: "string \<Rightarrow> bool" where
  "spec_id_shape rid =
     (startswith rid ''res-'' \<and> drop 4 rid \<noteq> [] \<and> (\<forall>c\<in>set (drop 4 rid). c \<in> set ''0123456789''))"

definition incoming_directory :: "string list \<Rightarrow> (string \<rightharpoonup> string) \<Rightarrow> json list \<Rightarrow> json list" where
  "incoming_directory written remap its =
     (if its = [] \<and> written \<noteq> [] then map minimal_entry written else map (remap_item remap) its)"

definition result_directory_ids :: "(error + dict) \<times> store \<Rightarrow> string option list option" where
  "result_directory_ids r =
     (case fst r of Inr idx \<Rightarrow> map_option (map entry_id) (directory_of idx) | Inl e \<Rightarrow> None)"

definition run_outcome :: "(error + dict) \<times> store \<Rightarrow> string option list option \<times> directory" where
  "run_outcome r = (result_directory_ids r, resolutions (snd r))"

definition result_directory :: "(error + dict) \<times> store \<Rightarrow> json list option" where
  "result_directory r = (case fst r of Inr idx \<Rightarrow> directory_of idx | Inl e \<Rightarrow> None)"

text \<open>
  The id that a line declares, and the ids that the lines of a reply declare, in order.
  \<open>final_id remap\<close> is the id that step 3 gives to an entry in place of its own.
  \<open>remap_inv\<close> is the invariant that ties the remap to the records: a key of the remap
  was declared by a record and is sent to another id, and every declared id stands, with
  the id that step 3 puts in its place, at the position of a record that declared it and
  of the id this record was written under.
\<close>

definition declared_id :: "pylib \<Rightarrow> string \<Rightarrow> string option" where
  "declared_id L ln =
     (case json_loads L ln of
        Some (JObj obj) \<Rightarrow> (case get_or obj ''id'' JNull of JStr rid \<Rightarrow> Some rid | _ \<Rightarrow> None)
      | _ \<Rightarrow> None)"

definition declared_ids :: "pylib \<Rightarrow> string list \<Rightarrow> string list" where
  "declared_ids L lns =
     concat (map (\<lambda>ln. case declared_id L ln of Some rid \<Rightarrow> [rid] | None \<Rightarrow> []) lns)"

definition final_id :: "(string \<rightharpoonup> string) \<Rightarrow> string \<Rightarrow> string" where
  "final_id remap rid = (case remap rid of Some new \<Rightarrow> new | None \<Rightarrow> rid)"

definition remap_inv :: "string list \<Rightarrow> run_state \<Rightarrow> bool" where
  "remap_inv decl st =
     (length decl = length (written_ids st)
      \<and> (\<forall>e w. id_remap st e = Some w \<longrightarrow> e \<in> set decl \<and> w \<noteq> e)
      \<and> (\<forall>e\<in>set decl. (e, final_id (id_remap st) e) \<in> set (zip decl (written_ids st))))"

text \<open>
  The directory that the reply supplies and the one of the index read from the store, empty
  when there is none. An entry \<open>has_record\<close> when it bears an id whose file is in the
  store; a directory is recorded when every entry has its record, and consistent with the
  store when, moreover, no two of its entries bear the same id. \<open>entries_declared\<close> says that every entry bears an
  id that a record declares. \<open>final_directory\<close> is the directory of the index written,
  from the incoming one: the incoming one when no index was read, the merge by id
  otherwise.
\<close>

definition reply_directory :: "pylib \<Rightarrow> string \<Rightarrow> json list" where
  "reply_directory L out_text =
     (case reply_index L out_text of
        Some incoming \<Rightarrow> (case directory_of incoming of Some its \<Rightarrow> its | None \<Rightarrow> [])
      | None \<Rightarrow> [])"

definition previous_directory :: "store \<Rightarrow> json list" where
  "previous_directory s =
     (case read_existing_index s of
        Some merged \<Rightarrow> (case directory_of merged of Some old \<Rightarrow> old | None \<Rightarrow> [])
      | None \<Rightarrow> [])"

definition has_record :: "directory \<Rightarrow> json \<Rightarrow> bool" where
  "has_record d it =
     (case entry_id it of Some rid \<Rightarrow> path_exists (rid @ ''.json'') d | None \<Rightarrow> False)"

definition directory_recorded :: "json list \<Rightarrow> directory \<Rightarrow> bool" where
  "directory_recorded ents d = (\<forall>it\<in>set ents. has_record d it)"

definition directory_consistent :: "json list \<Rightarrow> directory \<Rightarrow> bool" where
  "directory_consistent ents d = (distinct (map entry_id ents) \<and> directory_recorded ents d)"

definition entries_declared :: "string list \<Rightarrow> json list \<Rightarrow> bool" where
  "entries_declared decl its = (\<forall>it\<in>set its. \<exists>rid\<in>set decl. entry_id it = Some rid)"

definition final_directory :: "store \<Rightarrow> json list \<Rightarrow> json list" where
  "final_directory s incoming_items =
     (case read_existing_index s of
        None \<Rightarrow> incoming_items
      | Some merged \<Rightarrow>
          first_seen entry_id (directory_entries (previous_directory s @ incoming_items)))"

subsection \<open>The digest\<close>

text \<open>
  \<open>digest_text\<close> is the sectioned text before the budget is applied, and \<open>last_entries k\<close>
  are the last \<open>k\<close> entries of a list. \<open>channels_append\<close> puts the entries of a second
  run of events after those of a first, channel by channel.
\<close>

definition digest_text :: "pylib \<Rightarrow> titles \<Rightarrow> json list \<Rightarrow> string" where
  "digest_text L T events = strip (join [CHR 0x0A] (material_lines T (collect_channels L events)))"

definition last_entries :: "nat \<Rightarrow> 'a list \<Rightarrow> 'a list" where
  "last_entries k xs = drop (length xs - k) xs"

definition no_channels :: channels where
  "no_channels = \<lparr>summaries = [], dialogue = [], tool_uses = [], tool_results = [], tool_stats = []\<rparr>"

definition channels_append :: "channels \<Rightarrow> channels \<Rightarrow> channels" where
  "channels_append a b =
     \<lparr>summaries = summaries a @ summaries b, dialogue = dialogue a @ dialogue b,
      tool_uses = tool_uses a @ tool_uses b, tool_results = tool_results a @ tool_results b,
      tool_stats = tool_stats a @ tool_stats b\<rparr>"

section \<open>Examples\<close>

text \<open>
  The inputs of the examples. The titles of the sections are stand-ins in ASCII.
\<close>

text \<open>A reply of given documents, as text, and a library that reads these documents back.\<close>

definition reply_text :: "json \<Rightarrow> json list \<Rightarrow> string" where
  "reply_text idx records =
     index_marker @ [CHR 0x0A] @ dumps_sorted idx @ [CHR 0x0A] @ end_marker @ [CHR 0x0A]
     @ ndjson_marker @ [CHR 0x0A] @ join [CHR 0x0A] (map dumps_sorted records) @ [CHR 0x0A]
     @ end_marker"

definition example_lib :: "json list \<Rightarrow> pylib" where
  "example_lib docs = table_lib (map (\<lambda>v. (dumps_sorted v, v)) docs)"

definition raising_lib :: pylib where
  "raising_lib = \<lparr>json_loads = (\<lambda>_. None), json_dumps = (\<lambda>_. None), py_str = str_builtin\<rparr>"

definition empty_store :: store where
  "empty_store = \<lparr>resolutions = [], index = Missing\<rparr>"

definition demo_persisted :: json where
  "demo_persisted =
     JObj [(''project'', JStr ''demo''), (''goals'', JList [JStr ''g1'']),
       (''environment'', JObj [(''os'', JStr ''linux''), (''tools'', JList [JStr ''git''])]),
       (''detail_index'', JObj [(''resolutions'', JList [JObj [(''id'', JStr ''res-001'')]])])]"

definition demo_incoming :: json where
  "demo_incoming =
     JObj [(''current_state'', JStr ''ok''),
       (''goals'', JList [JStr ''g2'', JStr ''g1'', JStr ''g2'']),
       (''environment'', JObj [(''tools'', JList [JStr ''make''])]),
       (''detail_index'', JObj [(''resolutions'',
          JList [JObj [(''id'', JStr ''res-002'')], JObj [(''id'', JStr ''res-001''), (''summary'', JStr ''x'')]])])]"

definition demo_illtyped :: json where
  "demo_illtyped = JObj [(''project'', JStr ''demo''), (''goals'', JStr ''ship it'')]"

text \<open>The scenario of the specification: the closing marker of the NDJSON block is missing.\<close>

definition unclosed_reply :: string where
  "unclosed_reply =
     index_marker @ [CHR 0x0A] @ dumps_sorted (JObj [(''project'', JStr ''demo'')]) @ [CHR 0x0A]
     @ end_marker @ [CHR 0x0A] @ ndjson_marker @ [CHR 0x0A]
     @ dumps_sorted (JObj [(''id'', JStr ''res-001'')]) @ [CHR 0x0A]"

definition regress_store :: store where
  "regress_store =
     \<lparr>resolutions = [],
      index = Stored (JObj [(''project'', JStr ''demo''), (''current_state'', JStr ''cluster_ok''),
        (''next_actions'', JList [JStr ''deploy''])])\<rparr>"

text \<open>
  Three records: A and B declare the same id, C another one. An id of the shape
  \<^verbatim>\<open>res-NNN\<close> with 247 digits, and a record that declares it.
\<close>

definition record_a :: json where
  "record_a = JObj [(''id'', JStr ''res-001''), (''problem'', JStr ''A'')]"

definition record_b :: json where
  "record_b = JObj [(''id'', JStr ''res-001''), (''problem'', JStr ''B'')]"

definition record_c :: json where
  "record_c = JObj [(''id'', JStr ''res-002''), (''problem'', JStr ''C'')]"

definition long_id :: string where
  "long_id = ''res-'' @ replicate 247 CHR ''7''"

definition long_record :: json where
  "long_record = JObj [(''id'', JStr long_id)]"

text \<open>
  A store with one record and an index that lists it. The index of a reply with one
  directory entry for each of the records A and C, the one of a reply with one entry for
  each of the records A and B, and the one of a reply that lists twice an id that no
  record declares.
\<close>

definition archive_store :: store where
  "archive_store =
     \<lparr>resolutions = [(''res-001.json'', JObj [(''id'', JStr ''res-001''), (''problem'', JStr ''old'')])],
      index = Stored (JObj [(''project'', JStr ''demo''),
        (''detail_index'', JObj [(''resolutions'',
           JList [JObj [(''id'', JStr ''res-001''), (''summary'', JStr ''old'')]])])])\<rparr>"

definition two_entries :: json where
  "two_entries =
     JObj [(''detail_index'', JObj [(''resolutions'',
       JList [JObj [(''id'', JStr ''res-001''), (''summary'', JStr ''A'')],
              JObj [(''id'', JStr ''res-002''), (''summary'', JStr ''C'')]])])]"

definition twice_listed :: json where
  "twice_listed =
     JObj [(''detail_index'', JObj [(''resolutions'',
       JList [JObj [(''id'', JStr ''res-001''), (''summary'', JStr ''A'')],
              JObj [(''id'', JStr ''res-001''), (''summary'', JStr ''B'')]])])]"

definition dangling_reply_index :: json where
  "dangling_reply_index =
     JObj [(''detail_index'', JObj [(''resolutions'',
       JList [JObj [(''id'', JStr ''res-009'')], JObj [(''id'', JStr ''res-009'')]])])]"

definition ascii_titles :: titles where
  "ascii_titles =
     \<lparr>summary_title = ''[summary]'', tool_use_title = ''[tool_use]'',
      tool_stats_title = ''[toolUseResult]'', tool_result_title = ''[tool_result]'',
      dialogue_title = ''[dialogue]''\<rparr>"

section \<open>Deduplication\<close>

lemma filter_swap: "filter P (filter Q xs) = filter Q (filter P xs)"
  by (simp add: conj_commute)

lemma first_seen_filter:
  "first_seen key (filter (\<lambda>y. P (key y)) xs) = filter (\<lambda>y. P (key y)) (first_seen key xs)"
proof (induction key xs rule: first_seen.induct)
  case (1 key)
  show ?case by simp
next
  case (2 key x xs)
  let ?ne = "\<lambda>y. key y \<noteq> key x" and ?p = "\<lambda>y. P (key y)"
  have ih: "first_seen key (filter ?p (filter ?ne xs)) = filter ?p (first_seen key (filter ?ne xs))"
    using 2 by simp
  show ?case
  proof (cases "P (key x)")
    case True
    have "first_seen key (filter ?p (x # xs)) = x # first_seen key (filter ?ne (filter ?p xs))"
      using True by simp
    also have "filter ?ne (filter ?p xs) = filter ?p (filter ?ne xs)"
      by (rule filter_swap)
    also have "x # first_seen key (filter ?p (filter ?ne xs)) = filter ?p (first_seen key (x # xs))"
      using True ih by simp
    finally show ?thesis .
  next
    case False
    have same: "filter ?p (filter ?ne xs) = filter ?p xs"
      using False by (auto intro: filter_cong)
    have "first_seen key (filter ?p (x # xs)) = first_seen key (filter ?p xs)"
      using False by simp
    also have "\<dots> = filter ?p (first_seen key (filter ?ne xs))"
      using ih same by simp
    also have "\<dots> = filter ?p (first_seen key (x # xs))"
      using False by simp
    finally show ?thesis .
  qed
qed

lemma set_first_seen_subset: "set (first_seen key xs) \<subseteq> set xs"
  by (induction key xs rule: first_seen.induct) auto

lemma keys_first_seen: "key ` set (first_seen key xs) = key ` set xs"
proof (induction key xs rule: first_seen.induct)
  case (1 key)
  show ?case by simp
next
  case (2 key x xs)
  have "key ` set (filter (\<lambda>y. key y \<noteq> key x) xs) = key ` set xs - {key x}" by auto
  with 2 show ?case by auto
qed

lemma distinct_keys_first_seen: "distinct (map key (first_seen key xs))"
proof (induction key xs rule: first_seen.induct)
  case (1 key)
  show ?case by simp
next
  case (2 key x xs)
  have "key x \<notin> key ` set (first_seen key (filter (\<lambda>y. key y \<noteq> key x) xs))"
    by (auto simp: keys_first_seen)
  with 2 show ?case by simp
qed

lemma first_seen_distinct: "distinct (map key xs) \<Longrightarrow> first_seen key xs = xs"
proof (induction xs)
  case Nil
  then show ?case by simp
next
  case (Cons x xs)
  then have "\<forall>y\<in>set xs. key y \<noteq> key x"
    by (metis distinct.simps(2) imageI list.simps(9) set_map)
  then have "filter (\<lambda>y. key y \<noteq> key x) xs = xs"
    by simp
  with Cons show ?case by simp
qed

lemma first_seen_idem: "first_seen key (first_seen key xs) = first_seen key xs"
  by (simp add: first_seen_distinct distinct_keys_first_seen)

lemma first_seen_append:
  "first_seen key (xs @ ys)
     = first_seen key xs @ first_seen key (filter (\<lambda>y. key y \<notin> key ` set xs) ys)"
proof (induction key xs arbitrary: ys rule: first_seen.induct)
  case (1 key)
  show ?case by simp
next
  case (2 key x xs)
  let ?ne = "\<lambda>y. key y \<noteq> key x"
  have "first_seen key ((x # xs) @ ys) = x # first_seen key (filter ?ne xs @ filter ?ne ys)"
    by simp
  also have "first_seen key (filter ?ne xs @ filter ?ne ys)
      = first_seen key (filter ?ne xs)
        @ first_seen key (filter (\<lambda>y. key y \<notin> key ` set (filter ?ne xs)) (filter ?ne ys))"
    using 2 by simp
  also have "filter (\<lambda>y. key y \<notin> key ` set (filter ?ne xs)) (filter ?ne ys)
      = filter (\<lambda>y. key y \<notin> key ` set (x # xs)) ys"
    by (auto intro!: filter_cong)
  finally show ?case by simp
qed

lemma first_seen_absorb:
  assumes "key ` set ys \<subseteq> key ` set xs"
  shows "first_seen key (first_seen key xs @ ys) = first_seen key xs"
proof -
  have "filter (\<lambda>y. key y \<notin> key ` set (first_seen key xs)) ys = []"
    using assms by (auto simp: keys_first_seen filter_empty_conv)
  then show ?thesis
    by (simp add: first_seen_append first_seen_idem)
qed

lemma merge_loop_first_seen:
  "merge_loop L xs (out, seen)
     = (out @ first_seen (item_key L) (filter (\<lambda>y. item_key L y \<notin> seen) xs),
        seen \<union> item_key L ` set xs)"
proof (induction xs arbitrary: out seen)
  case Nil
  then show ?case by simp
next
  case (Cons x xs)
  show ?case
  proof (cases "item_key L x \<in> seen")
    case True
    then show ?thesis using Cons by auto
  next
    case False
    have "filter (\<lambda>y. item_key L y \<notin> insert (item_key L x) seen) xs
        = filter (\<lambda>y. item_key L y \<noteq> item_key L x) (filter (\<lambda>y. item_key L y \<notin> seen) xs)"
      by (auto intro: filter_cong)
    moreover have "merge_loop L (x # xs) (out, seen)
        = merge_loop L xs (out @ [x], insert (item_key L x) seen)"
      using False by (simp add: Let_def)
    ultimately show ?thesis using False
      by (simp add: Cons del: filter_filter)
  qed
qed

lemma unique_list_merge_first_seen:
  "unique_list_merge L a b = first_seen (item_key L) (entries a @ entries b)"
proof -
  have "unique_list_merge L a b
      = first_seen (item_key L) (entries a)
        @ first_seen (item_key L) (filter (\<lambda>y. item_key L y \<notin> item_key L ` set (entries a)) (entries b))"
    by (cases a; cases b) (simp_all add: unique_list_merge_def entries_def merge_loop_first_seen)
  then show ?thesis by (simp add: first_seen_append)
qed

lemma unique_list_merge_idem:
  "unique_list_merge L (JList (unique_list_merge L a b)) b = unique_list_merge L a b"
proof -
  have "item_key L ` set (entries b) \<subseteq> item_key L ` set (entries a @ entries b)" by auto
  then show ?thesis
    by (simp add: unique_list_merge_first_seen entries_def [of "JList _"] first_seen_absorb)
qed

lemma unique_list_merge_split:
  "unique_list_merge L a b =
     first_seen (item_key L) (entries a)
     @ first_seen (item_key L)
         (filter (\<lambda>y. item_key L y \<notin> item_key L ` set (entries a)) (entries b))"
  by (simp add: unique_list_merge_first_seen first_seen_append)

lemma unique_list_merge_entries:
  "unique_list_merge L a b = unique_list_merge L (JList (entries a)) (JList (entries b))"
  by (simp add: unique_list_merge_first_seen entries_def)

lemma entries_not_list: "(\<forall>xs. a \<noteq> JList xs) \<Longrightarrow> entries a = []"
  by (cases a) (simp_all add: entries_def)

lemma res_loop_first_seen:
  "res_loop its (out, seen)
     = (out @ first_seen entry_id (filter (\<lambda>y. entry_id y \<notin> Some ` seen) (directory_entries its)),
        seen \<union> {rid. Some rid \<in> entry_id ` set its})"
proof (induction its arbitrary: out seen)
  case Nil
  then show ?case by (simp add: directory_entries_def)
next
  case (Cons it its)
  show ?case
  proof (cases "entry_id it")
    case None
    then have "res_loop (it # its) (out, seen) = res_loop its (out, seen)"
      by (auto simp: entry_id_def split: json.splits option.splits)
    moreover have "directory_entries (it # its) = directory_entries its"
      using None by (simp add: directory_entries_def)
    moreover have "{rid. Some rid \<in> entry_id ` set (it # its)} = {rid. Some rid \<in> entry_id ` set its}"
      using None by auto
    ultimately show ?thesis using Cons by simp
  next
    case (Some rid)
    then have step: "res_loop (it # its) (out, seen)
        = (if rid \<notin> seen then res_loop its (out @ [it], insert rid seen) else res_loop its (out, seen))"
      by (auto simp: entry_id_def split: json.splits option.splits)
    have de: "directory_entries (it # its) = it # directory_entries its"
      using Some by (simp add: directory_entries_def)
    have ids: "{r. Some r \<in> entry_id ` set (it # its)} = insert rid {r. Some r \<in> entry_id ` set its}"
      using Some by auto
    show ?thesis
    proof (cases "rid \<in> seen")
      case True
      then show ?thesis using step de ids Some Cons by auto
    next
      case False
      have "filter (\<lambda>y. entry_id y \<notin> Some ` insert rid seen) (directory_entries its)
          = filter (\<lambda>y. entry_id y \<noteq> entry_id it)
              (filter (\<lambda>y. entry_id y \<notin> Some ` seen) (directory_entries its))"
        using Some by (auto intro: filter_cong)
      then show ?thesis using False step de ids Some
        by (simp add: Cons del: filter_filter) auto
    qed
  qed
qed

lemma merge_resolution_index_items_lists:
  "merge_resolution_index_items (JList xs) (JList ys)
     = Inr (first_seen entry_id (directory_entries (xs @ ys)))"
proof -
  have a: "iter_items (or_empty (JList xs)) = Inr xs" for xs
    by (simp add: or_empty_def)
  have "filter (\<lambda>y. entry_id y \<notin> Some ` {rid. Some rid \<in> entry_id ` set xs}) (directory_entries ys)
      = filter (\<lambda>y. entry_id y \<notin> entry_id ` set (directory_entries xs)) (directory_entries ys)"
  proof (rule filter_cong)
    fix y
    assume "y \<in> set (directory_entries ys)"
    then obtain r where r: "entry_id y = Some r"
      by (auto simp: directory_entries_def)
    have "(Some r \<in> Some ` {rid. Some rid \<in> entry_id ` set xs})
        = (\<exists>x\<in>set xs. entry_id x = Some r)"
      by (auto simp: image_iff) metis
    also have "\<dots> = (Some r \<in> entry_id ` set (directory_entries xs))"
      by (auto simp: directory_entries_def image_iff)
    finally have "(Some r \<in> Some ` {rid. Some rid \<in> entry_id ` set xs})
        = (Some r \<in> entry_id ` set (directory_entries xs))" .
    with r show "(entry_id y \<notin> Some ` {rid. Some rid \<in> entry_id ` set xs})
        = (entry_id y \<notin> entry_id ` set (directory_entries xs))"
      by simp
  qed simp
  then show ?thesis
    by (simp add: merge_resolution_index_items_def a res_loop_first_seen
        first_seen_append directory_entries_def)
qed

lemma directory_entries_append:
  "directory_entries (xs @ ys) = directory_entries xs @ directory_entries ys"
  by (simp add: directory_entries_def)

lemma directory_entries_first_seen:
  "directory_entries (first_seen entry_id (directory_entries xs)) = first_seen entry_id (directory_entries xs)"
proof -
  have "set (first_seen entry_id (directory_entries xs)) \<subseteq> set (directory_entries xs)"
    by (rule set_first_seen_subset)
  then have "\<forall>x\<in>set (first_seen entry_id (directory_entries xs)). entry_id x \<noteq> None"
    by (auto simp: directory_entries_def)
  then show ?thesis
    unfolding directory_entries_def [of "first_seen _ _"] by simp
qed

lemma directory_entries_have_ids: "it \<in> set (first_seen entry_id (directory_entries xs)) \<Longrightarrow> entry_id it \<noteq> None"
  using set_first_seen_subset [of entry_id "directory_entries xs"]
  by (auto simp: directory_entries_def)

section \<open>Dicts\<close>

lemma map_of_setdefault:
  "map_of (setdefault k v d) k' =
     (if k' = k then (case map_of d k of Some w \<Rightarrow> Some w | None \<Rightarrow> Some v) else map_of d k')"
  by (auto simp: setdefault_def map_add_def split: option.splits)

lemma map_of_setdefault_add: "map_of (setdefault k v d) = map_of [(k, v)] ++ map_of d"
  by (rule ext) (auto simp: setdefault_def map_add_def split: option.splits)

lemma setdefault_present: "map_of d k = Some x \<Longrightarrow> setdefault k v d = d"
  by (simp add: setdefault_def)

lemma map_of_set_item: "map_of (set_item k v d) k' = (if k' = k then Some v else map_of d k')"
  by (simp add: set_item_def update_conv')

lemma get_or_set_item: "get_or (set_item k v d) k' x = (if k' = k then v else get_or d k' x)"
  by (simp add: get_or_def map_of_set_item)

lemma set_item_triv: "map_of d k = Some v \<Longrightarrow> set_item k v d = d"
  by (simp add: set_item_def update_triv)

lemma set_item_twice: "set_item k v (set_item k w d) = set_item k v d"
  by (simp add: set_item_def)

lemma get_or_get_or: "get_or d k (get_or d k x) = get_or d k x"
  by (simp add: get_or_def split: option.splits)

lemma get_or_Some: "map_of d k = Some v \<Longrightarrow> get_or d k x = v"
  by (simp add: get_or_def)

lemma get_or_JStr: "get_or obj k JNull = JStr rid \<Longrightarrow> map_of obj k = Some (JStr rid)"
  by (auto simp: get_or_def split: option.splits)

lemma directory_ofD:
  "directory_of idx = Some its \<Longrightarrow>
     \<exists>di. map_of idx ''detail_index'' = Some (JObj di) \<and> map_of di ''resolutions'' = Some (JList its)"
  by (auto simp: directory_of_def split: option.splits json.splits)

section \<open>Normalisation\<close>

lemma map_of_with_defaults:
  "map_of (with_defaults d) k =
     (case map_of d k of Some x \<Rightarrow> Some x | None \<Rightarrow> map_of schema_defaults k)"
proof (cases "map_of d k")
  case None
  then show ?thesis
    by (simp add: with_defaults_def map_of_setdefault_add map_add_def schema_defaults_def)
next
  case (Some x)
  then show ?thesis
    by (simp add: with_defaults_def map_of_setdefault_add map_add_def)
qed

lemma normalize_index_with_defaults:
  "normalize_index v =
     (let o9 = with_defaults (as_dict v);
          o10 = (case map_of o9 ''detail_index'' of
                   Some (JObj _) \<Rightarrow> o9
                 | _ \<Rightarrow> set_item ''detail_index'' empty_detail_index o9);
          di = (case map_of o10 ''detail_index'' of Some (JObj d) \<Rightarrow> d | _ \<Rightarrow> [])
      in set_item ''detail_index'' (JObj (normalize_detail_index di)) o10)"
  by (simp add: normalize_index_def Let_def with_defaults_def as_dict_def)

lemma normalize_detail_index_lookup:
  "map_of (normalize_detail_index di) k =
     (if k = ''resolutions''
      then (case map_of di ''resolutions'' of Some (JList its) \<Rightarrow> Some (JList its) | _ \<Rightarrow> Some (JList []))
      else map_of di k)"
  by (auto simp: normalize_detail_index_def Let_def map_of_setdefault map_of_set_item
      split: option.splits json.splits)

lemma normalize_index_other:
  assumes "k \<noteq> ''detail_index''"
  shows "map_of (normalize_index v) k =
     (case map_of (as_dict v) k of Some x \<Rightarrow> Some x | None \<Rightarrow> map_of schema_defaults k)"
proof -
  have "map_of (normalize_index v) k = map_of (with_defaults (as_dict v)) k"
    using assms
    by (simp add: normalize_index_with_defaults Let_def map_of_set_item
        split: option.splits json.splits)
  then show ?thesis by (simp add: map_of_with_defaults)
qed

lemma normalize_index_detail:
  "map_of (normalize_index v) ''detail_index'' =
     Some (JObj (normalize_detail_index
       (case map_of (as_dict v) ''detail_index'' of
          Some (JObj di) \<Rightarrow> di
        | _ \<Rightarrow> [(''resolutions'', JList [])])))"
proof -
  have d: "map_of schema_defaults ''detail_index'' = Some (JObj [(''resolutions'', JList [])])"
    by (simp add: schema_defaults_def empty_detail_index_def)
  show ?thesis
    by (simp add: normalize_index_with_defaults Let_def map_of_set_item map_of_with_defaults d
        empty_detail_index_def split: option.splits json.splits)
qed

lemma directory_of_normalize_index:
  "\<exists>its. directory_of (normalize_index v) = Some its"
  by (auto simp: directory_of_def normalize_index_detail normalize_detail_index_lookup
      split: option.splits json.splits)

lemma schema_keys_normalize_index:
  assumes "k \<in> set schema_keys"
  shows "map_of (normalize_index v) k \<noteq> None"
proof (cases "k = ''detail_index''")
  case True
  then show ?thesis by (simp add: normalize_index_detail)
next
  case False
  with assms show ?thesis
    by (auto simp: normalize_index_other schema_keys_def schema_defaults_def split: option.splits)
qed

lemma is_normalized_normalize_index: "is_normalized (normalize_index v)"
  using directory_of_normalize_index [of v]
  by (auto simp: is_normalized_def schema_keys_normalize_index)

lemma normalize_index_fixed:
  assumes "is_normalized d"
  shows "normalize_index (JObj d) = d"
proof -
  from assms obtain its where "directory_of d = Some its"
    by (auto simp: is_normalized_def)
  then obtain di where di: "map_of d ''detail_index'' = Some (JObj di)"
      "map_of di ''resolutions'' = Some (JList its)"
    using directory_ofD by blast
  have sd: "setdefault k v d = d" if "k \<in> set schema_keys" for k v
  proof -
    from assms that obtain x where "map_of d k = Some x"
      by (auto simp: is_normalized_def)
    then show ?thesis by (rule setdefault_present)
  qed
  have wd: "with_defaults d = d"
    by (simp add: with_defaults_def sd schema_keys_def)
  have ndi: "normalize_detail_index di = di"
    by (simp add: normalize_detail_index_def Let_def setdefault_present [OF di(2)] di(2))
  show ?thesis
    by (simp add: normalize_index_with_defaults Let_def as_dict_def wd di(1) ndi set_item_triv)
qed

lemma normalize_index_null: "normalize_index JNull = schema_defaults"
  by code_simp

lemma normalize_index_not_dict: "as_dict v = [] \<Longrightarrow> normalize_index v = normalize_index JNull"
  by (simp add: normalize_index_with_defaults as_dict_def)

lemma normalize_detail_index_default:
  "normalize_detail_index [(''resolutions'', JList [])] = [(''resolutions'', JList [])]"
  by code_simp

text \<open>
  C5, as amended. For every decoded value, \<^const>\<open>normalize_index\<close> returns a dict in
  which every key of the schema is present; a key that the value lacks, or every key when
  the value is not a dict, has the default of the schema (the empty list for the
  sequences, the canonical empty shape for the environment and for the detail index); the
  detail index is always a dict whose \<^verbatim>\<open>resolutions\<close> is a list, and is the canonical
  empty shape when the value has none or one that is not a dict. A value that is present
  under any other key is kept as it is, whatever its type.
\<close>

theorem normalize_index_schema:
  "(\<forall>k\<in>set schema_keys. map_of (normalize_index v) k \<noteq> None)
   \<and> (\<forall>k\<in>set schema_keys. map_of (as_dict v) k = None \<longrightarrow>
         map_of (normalize_index v) k = map_of schema_defaults k)
   \<and> (\<forall>k x. k \<noteq> ''detail_index'' \<longrightarrow> map_of (as_dict v) k = Some x \<longrightarrow>
         map_of (normalize_index v) k = Some x)
   \<and> (\<exists>its. directory_of (normalize_index v) = Some its)
   \<and> ((\<forall>di. map_of (as_dict v) ''detail_index'' \<noteq> Some (JObj di)) \<longrightarrow>
         map_of (normalize_index v) ''detail_index'' = Some empty_detail_index)
   \<and> ((\<forall>d. v \<noteq> JObj d) \<longrightarrow> normalize_index v = schema_defaults)"
proof (intro conjI)
  show "\<forall>k\<in>set schema_keys. map_of (normalize_index v) k \<noteq> None"
    by (simp add: schema_keys_normalize_index)
  show "\<forall>k\<in>set schema_keys. map_of (as_dict v) k = None \<longrightarrow>
      map_of (normalize_index v) k = map_of schema_defaults k"
  proof (intro ballI impI)
    fix k
    assume k: "k \<in> set schema_keys" and none: "map_of (as_dict v) k = None"
    show "map_of (normalize_index v) k = map_of schema_defaults k"
    proof (cases "k = ''detail_index''")
      case True
      with none show ?thesis
        by (simp add: normalize_index_detail normalize_detail_index_default
            schema_defaults_def empty_detail_index_def)
    next
      case False
      with none show ?thesis by (simp add: normalize_index_other)
    qed
  qed
  show "\<forall>k x. k \<noteq> ''detail_index'' \<longrightarrow> map_of (as_dict v) k = Some x \<longrightarrow>
      map_of (normalize_index v) k = Some x"
    by (simp add: normalize_index_other)
  show "\<exists>its. directory_of (normalize_index v) = Some its"
    by (rule directory_of_normalize_index)
  show "(\<forall>di. map_of (as_dict v) ''detail_index'' \<noteq> Some (JObj di)) \<longrightarrow>
      map_of (normalize_index v) ''detail_index'' = Some empty_detail_index"
  proof
    assume a: "\<forall>di. map_of (as_dict v) ''detail_index'' \<noteq> Some (JObj di)"
    have "(case map_of (as_dict v) ''detail_index'' of Some (JObj di) \<Rightarrow> di
          | _ \<Rightarrow> [(''resolutions'', JList [])]) = [(''resolutions'', JList [])]"
      using a by (auto split: option.splits json.splits)
    then show "map_of (normalize_index v) ''detail_index'' = Some empty_detail_index"
      by (simp add: normalize_index_detail normalize_detail_index_default empty_detail_index_def)
  qed
  show "(\<forall>d. v \<noteq> JObj d) \<longrightarrow> normalize_index v = schema_defaults"
  proof
    assume "\<forall>d. v \<noteq> JObj d"
    then have "as_dict v = []" by (cases v) (simp_all add: as_dict_def)
    then show "normalize_index v = schema_defaults"
      by (simp add: normalize_index_not_dict normalize_index_null)
  qed
qed

theorem normalize_index_schema_witness:
  "map_of (as_dict (JObj [(''project'', JStr ''demo''), (''detail_index'', JInt 7)])) ''goals'' = None
   \<and> ''goals'' \<in> set schema_keys
   \<and> map_of (normalize_index (JObj [(''project'', JStr ''demo''), (''detail_index'', JInt 7)])) ''goals''
       = map_of schema_defaults ''goals''
   \<and> map_of (normalize_index (JObj [(''project'', JStr ''demo''), (''detail_index'', JInt 7)])) ''project''
       = Some (JStr ''demo'')
   \<and> map_of (normalize_index (JObj [(''project'', JStr ''demo''), (''detail_index'', JInt 7)]))
        ''detail_index'' = Some empty_detail_index
   \<and> normalize_index (JInt 3) = schema_defaults"
proof -
  let ?v = "JObj [(''project'', JStr ''demo''), (''detail_index'', JInt 7)]"
  have g: "map_of (as_dict ?v) ''goals'' = None" by code_simp
  have k: "''goals'' \<in> set schema_keys" by code_simp
  have p: "map_of (as_dict ?v) ''project'' = Some (JStr ''demo'')" by code_simp
  have d: "\<forall>di. map_of (as_dict ?v) ''detail_index'' \<noteq> Some (JObj di)"
    by (simp add: as_dict_def)
  have n: "\<forall>d. JInt 3 \<noteq> JObj d" by simp
  have ne: "''project'' \<noteq> ''detail_index''" by simp
  note T = normalize_index_schema [of ?v]
  have 1: "map_of (normalize_index ?v) ''goals'' = map_of schema_defaults ''goals''"
    by (rule T [THEN conjunct2, THEN conjunct1, rule_format, OF k g])
  have 2: "map_of (normalize_index ?v) ''project'' = Some (JStr ''demo'')"
    by (rule T [THEN conjunct2, THEN conjunct2, THEN conjunct1, rule_format, OF ne p])
  have 3: "map_of (normalize_index ?v) ''detail_index'' = Some empty_detail_index"
    by (rule T [THEN conjunct2, THEN conjunct2, THEN conjunct2, THEN conjunct2, THEN conjunct1,
          rule_format, OF d [rule_format]])
  have 4: "normalize_index (JInt 3) = schema_defaults"
    by (rule normalize_index_schema [of "JInt 3", THEN conjunct2, THEN conjunct2, THEN conjunct2,
          THEN conjunct2, THEN conjunct2, rule_format, OF n [rule_format]])
  show ?thesis
    by (intro conjI g k 1 2 3 4)
qed

text \<open>
  A field that is present with the wrong type stays: a string under \<^verbatim>\<open>goals\<close> and a
  number under \<^verbatim>\<open>environment\<close> come back unchanged.
\<close>

theorem normalize_index_keeps_malformed:
  "map_of (normalize_index (JObj [(''goals'', JStr ''ship it''), (''environment'', JInt 3)])) ''goals''
     = Some (JStr ''ship it'')
   \<and> map_of (normalize_index (JObj [(''goals'', JStr ''ship it''), (''environment'', JInt 3)]))
       ''environment'' = Some (JInt 3)"
  by code_simp

section \<open>The merge of two indexes\<close>

text \<open>The fields of the merged index, before the directory is merged.\<close>

lemma merge_fields_lookup:
  "map_of (merge_fields L S D) k =
     (if k = ''project'' then Some (get_or D ''project'' (get_or S ''project'' JNull))
      else if k = ''current_state'' then Some (get_or D ''current_state'' (get_or S ''current_state'' JNull))
      else if k = ''next_actions'' then Some (get_or D ''next_actions'' (get_or S ''next_actions'' JNull))
      else if k = ''goals'' then Some (JList (unique_list_merge L (get_or S ''goals'' (JList []))
              (get_or D ''goals'' (JList []))))
      else if k = ''constraints'' then Some (JList (unique_list_merge L (get_or S ''constraints'' (JList []))
              (get_or D ''constraints'' (JList []))))
      else if k = ''verified_facts'' then Some (JList (unique_list_merge L
              (get_or S ''verified_facts'' (JList [])) (get_or D ''verified_facts'' (JList []))))
      else if k = ''environment'' then Some (merge_environment L S D)
      else map_of S k)"
proof -
  have env: "merge_environment L (set_item k' v S') D = merge_environment L S' D"
    if "k' \<noteq> ''environment''" for k' v S'
    using that by (simp add: merge_environment_def map_of_set_item)
  show ?thesis
    by (simp add: merge_fields_def Let_def map_of_set_item get_or_set_item env)
qed

lemma merge_environment_lookup:
  "merge_environment L S D =
     JObj [(''os'', get_or (environment_of D) ''os'' (get_or (environment_of S) ''os'' JNull)),
       (''runtime'', get_or (environment_of D) ''runtime'' (get_or (environment_of S) ''runtime'' JNull)),
       (''tools'', JList (unique_list_merge L (get_or (environment_of S) ''tools'' (JList []))
          (get_or (environment_of D) ''tools'' (JList [])))),
       (''paths'', JList (unique_list_merge L (get_or (environment_of S) ''paths'' (JList []))
          (get_or (environment_of D) ''paths'' (JList []))))]"
  by (simp add: merge_environment_def environment_of_def Let_def)

lemma merge_environment_idem:
  assumes "map_of M ''environment'' = Some (merge_environment L S D)"
  shows "merge_environment L M D = merge_environment L S D"
proof -
  obtain env_new where en: "env_new = (case map_of D ''environment'' of Some (JObj e) \<Rightarrow> e | _ \<Rightarrow> [])"
    by simp
  obtain env_old where eo: "env_old = (case map_of S ''environment'' of Some (JObj e) \<Rightarrow> e | _ \<Rightarrow> [])"
    by simp
  have first: "merge_environment L S D = JObj
          [(''os'', get_or env_new ''os'' (get_or env_old ''os'' JNull)),
           (''runtime'', get_or env_new ''runtime'' (get_or env_old ''runtime'' JNull)),
           (''tools'', JList (unique_list_merge L (get_or env_old ''tools'' (JList []))
              (get_or env_new ''tools'' (JList [])))),
           (''paths'', JList (unique_list_merge L (get_or env_old ''paths'' (JList []))
              (get_or env_new ''paths'' (JList []))))]"
    by (simp add: merge_environment_def Let_def en eo)
  show ?thesis
    unfolding first
    by (simp add: merge_environment_def [of L M D] assms first Let_def en [symmetric]
        get_or_def [of "[_, _, _, _]"] get_or_get_or unique_list_merge_idem)
qed

lemma merge_fields_fixed:
  assumes "\<And>k. k \<noteq> ''detail_index'' \<Longrightarrow> map_of M k = map_of (merge_fields L S D) k"
  shows "merge_fields L M D = M"
proof -
  have p: "map_of M ''project'' = Some (get_or D ''project'' (get_or S ''project'' JNull))"
    and c: "map_of M ''current_state'' = Some (get_or D ''current_state'' (get_or S ''current_state'' JNull))"
    and n: "map_of M ''next_actions'' = Some (get_or D ''next_actions'' (get_or S ''next_actions'' JNull))"
    and g: "map_of M ''goals'' = Some (JList (unique_list_merge L (get_or S ''goals'' (JList []))
              (get_or D ''goals'' (JList []))))"
    and k: "map_of M ''constraints'' = Some (JList (unique_list_merge L (get_or S ''constraints'' (JList []))
              (get_or D ''constraints'' (JList []))))"
    and v: "map_of M ''verified_facts'' = Some (JList (unique_list_merge L
              (get_or S ''verified_facts'' (JList [])) (get_or D ''verified_facts'' (JList []))))"
    and e: "map_of M ''environment'' = Some (merge_environment L S D)"
    by (simp_all add: assms merge_fields_lookup)
  have 1: "set_item ''project'' (get_or D ''project'' (get_or M ''project'' JNull)) M = M"
    by (rule set_item_triv) (simp add: p get_or_Some [OF p] get_or_get_or)
  have 2: "set_item ''current_state'' (get_or D ''current_state'' (get_or M ''current_state'' JNull)) M = M"
    by (rule set_item_triv) (simp add: c get_or_Some [OF c] get_or_get_or)
  have 3: "set_item ''next_actions'' (get_or D ''next_actions'' (get_or M ''next_actions'' JNull)) M = M"
    by (rule set_item_triv) (simp add: n get_or_Some [OF n] get_or_get_or)
  have 4: "set_item ''goals'' (JList (unique_list_merge L (get_or M ''goals'' (JList []))
              (get_or D ''goals'' (JList [])))) M = M"
    by (rule set_item_triv) (simp add: g get_or_Some [OF g] unique_list_merge_idem)
  have 5: "set_item ''constraints'' (JList (unique_list_merge L (get_or M ''constraints'' (JList []))
              (get_or D ''constraints'' (JList [])))) M = M"
    by (rule set_item_triv) (simp add: k get_or_Some [OF k] unique_list_merge_idem)
  have 6: "set_item ''verified_facts'' (JList (unique_list_merge L (get_or M ''verified_facts'' (JList []))
              (get_or D ''verified_facts'' (JList [])))) M = M"
    by (rule set_item_triv) (simp add: v get_or_Some [OF v] unique_list_merge_idem)
  have 7: "set_item ''environment'' (merge_environment L M D) M = M"
    by (rule set_item_triv) (simp add: e merge_environment_idem [OF e])
  show ?thesis
    by (simp add: merge_fields_def Let_def 1 2 3 4 5 6 7)
qed

lemma merge_fields_schema_keys:
  assumes "is_normalized S" and "k \<in> set schema_keys"
  shows "map_of (merge_fields L S D) k \<noteq> None"
  using assms by (auto simp: merge_fields_lookup is_normalized_def)

text \<open>The merged index, when both indexes hold a directory.\<close>

lemma merge_index_result:
  assumes S: "map_of S ''detail_index'' = Some (JObj di)" "map_of di ''resolutions'' = Some (JList xs)"
    and D: "directory_of D = Some ys"
  shows "merge_index L S D =
     Inr (set_item ''detail_index''
           (JObj (set_item ''resolutions''
              (JList (first_seen entry_id (directory_entries (xs @ ys)))) di))
           (merge_fields L S D))"
proof -
  obtain dj where dj: "map_of D ''detail_index'' = Some (JObj dj)" "map_of dj ''resolutions'' = Some (JList ys)"
    using directory_ofD [OF D] by blast
  have m: "map_of (merge_fields L S D) ''detail_index'' = Some (JObj di)"
    by (simp add: merge_fields_lookup S)
  show ?thesis
    by (simp add: merge_index_def Let_def attr_get_def get_or_Some [OF m] get_or_Some [OF S(2)]
        get_or_Some [OF dj(1)] get_or_Some [OF dj(2)] m merge_resolution_index_items_lists)
qed

lemma merge_index_twice:
  assumes S: "directory_of S = Some xs" and D: "directory_of D = Some ys"
  shows "\<exists>M. merge_index L S D = Inr M \<and> merge_index L M D = Inr M
     \<and> directory_of M = Some (first_seen entry_id (directory_entries (xs @ ys)))
     \<and> (\<forall>k. k \<noteq> ''detail_index'' \<longrightarrow> map_of M k = map_of (merge_fields L S D) k)"
proof -
  obtain di where di: "map_of S ''detail_index'' = Some (JObj di)" "map_of di ''resolutions'' = Some (JList xs)"
    using directory_ofD [OF S] by blast
  let ?items = "first_seen entry_id (directory_entries (xs @ ys))"
  let ?di' = "set_item ''resolutions'' (JList ?items) di"
  let ?M = "set_item ''detail_index'' (JObj ?di') (merge_fields L S D)"
  have first: "merge_index L S D = Inr ?M"
    by (rule merge_index_result [OF di D])
  have Md: "map_of ?M ''detail_index'' = Some (JObj ?di')"
    by (simp add: map_of_set_item)
  have Mr: "map_of ?di' ''resolutions'' = Some (JList ?items)"
    by (simp add: map_of_set_item)
  have other: "map_of ?M k = map_of (merge_fields L S D) k" if "k \<noteq> ''detail_index''" for k
    using that by (simp add: map_of_set_item)
  have fixed: "merge_fields L ?M D = ?M"
    by (rule merge_fields_fixed) (simp add: other)
  have "key ` set (directory_entries ys) \<subseteq> key ` set (directory_entries (xs @ ys))" for key :: "json \<Rightarrow> string option"
    by (auto simp: directory_entries_append)
  then have items: "first_seen entry_id (directory_entries (?items @ ys)) = ?items"
    by (simp add: directory_entries_append [of ?items] directory_entries_first_seen first_seen_absorb)
  have "merge_index L ?M D =
     Inr (set_item ''detail_index''
           (JObj (set_item ''resolutions''
              (JList (first_seen entry_id (directory_entries (?items @ ys)))) ?di'))
           (merge_fields L ?M D))"
    by (rule merge_index_result [OF Md Mr D])
  also have "\<dots> = Inr ?M"
    by (simp add: items fixed set_item_twice)
  finally have second: "merge_index L ?M D = Inr ?M" .
  have "directory_of ?M = Some ?items"
    by (simp add: directory_of_def Md Mr)
  with first second other show ?thesis by blast
qed

text \<open>The merge of two normalized indexes succeeds, and its fields are those of the code.\<close>

lemma merge_index_fields:
  assumes "is_normalized S" and "is_normalized D"
  shows "\<exists>M. merge_index L S D = Inr M
     \<and> (\<forall>k. k \<noteq> ''detail_index'' \<longrightarrow> map_of M k = map_of (merge_fields L S D) k)
     \<and> directory_of M
         = Some (first_seen entry_id (directory_entries (the (directory_of S) @ the (directory_of D))))"
proof -
  from assms obtain xs ys where xs: "directory_of S = Some xs" and ys: "directory_of D = Some ys"
    by (auto simp: is_normalized_def)
  from merge_index_twice [OF xs ys, of L] show ?thesis
    by (auto simp: xs ys)
qed

text \<open>
  C1. Merge idempotence: for every persisted index \<open>S\<close> and every normalized incoming
  index \<open>D\<close>, the merge of \<open>D\<close> into \<open>S\<close> succeeds with an index \<open>M\<close>, and the merge
  of the same \<open>D\<close> into \<open>M\<close> gives \<open>M\<close> again. \<open>M\<close> is normalized, so that reading it
  back from the index file gives \<open>M\<close> itself. The merge is the one of the code: latest
  wins for the project, the state and the next actions, the union merge for the list
  fields and the tools and paths of the environment, the merge by id for the directory.
\<close>

theorem merge_idempotent:
  assumes "is_normalized S" and "is_normalized D"
  shows "\<exists>M. merge_index L S D = Inr M \<and> merge_index L M D = Inr M
     \<and> is_normalized M \<and> normalize_index (JObj M) = M"
proof -
  from assms obtain xs ys where xs: "directory_of S = Some xs" and ys: "directory_of D = Some ys"
    by (auto simp: is_normalized_def)
  from merge_index_twice [OF xs ys, of L] obtain M where
    M: "merge_index L S D = Inr M" "merge_index L M D = Inr M"
      "directory_of M = Some (first_seen entry_id (directory_entries (xs @ ys)))"
    and other: "\<And>k. k \<noteq> ''detail_index'' \<Longrightarrow> map_of M k = map_of (merge_fields L S D) k"
    by blast
  have "map_of M k \<noteq> None" if k: "k \<in> set schema_keys" for k
  proof (cases "k = ''detail_index''")
    case True
    with M(3) show ?thesis by (auto simp: directory_of_def split: option.splits)
  next
    case False
    then show ?thesis
      using merge_fields_schema_keys [OF assms(1) k] by (simp add: other)
  qed
  then have "is_normalized M" using M(3) by (simp add: is_normalized_def)
  then show ?thesis using M(1,2) normalize_index_fixed by blast
qed

theorem merge_idempotent_witness:
  "is_normalized (normalize_index demo_persisted) \<and> is_normalized (normalize_index demo_incoming)
   \<and> (\<exists>M. merge_index (table_lib []) (normalize_index demo_persisted) (normalize_index demo_incoming) = Inr M
        \<and> merge_index (table_lib []) M (normalize_index demo_incoming) = Inr M
        \<and> is_normalized M \<and> normalize_index (JObj M) = M)"
proof -
  have 1: "is_normalized (normalize_index demo_persisted)" by code_simp
  have 2: "is_normalized (normalize_index demo_incoming)" by code_simp
  from merge_idempotent [OF 1 2] 1 2 show ?thesis by blast
qed

text \<open>
  C8. Union merge: order, deduplication and monotonicity. The merge of a previous value
  \<open>a\<close> and an incoming value \<open>b\<close> is the previous entries, each where it is first seen,
  followed by the incoming entries whose key, the serialisation with sorted keys, is the
  key of no previous entry, each where it is first seen; no two entries of the result
  have the same key; every previous entry has an entry with its key in the result, and a
  previous list without repeated keys is a prefix of the result. In the merged index the
  fields \<^verbatim>\<open>goals\<close>, \<^verbatim>\<open>constraints\<close>, \<^verbatim>\<open>verified_facts\<close> and the \<^verbatim>\<open>tools\<close> and
  \<^verbatim>\<open>paths\<close> of the environment are this merge of the two indexes' fields.
\<close>

theorem union_merge_order:
  assumes "is_normalized S" and "is_normalized D"
  shows "unique_list_merge L a b =
       first_seen (item_key L) (entries a)
       @ first_seen (item_key L)
           (filter (\<lambda>y. item_key L y \<notin> item_key L ` set (entries a)) (entries b))
     \<and> distinct (map (item_key L) (unique_list_merge L a b))
     \<and> (\<forall>x\<in>set (entries a). \<exists>y\<in>set (unique_list_merge L a b). item_key L y = item_key L x)
     \<and> (distinct (map (item_key L) (entries a)) \<longrightarrow>
          take (length (entries a)) (unique_list_merge L a b) = entries a)
     \<and> (\<exists>M. merge_index L S D = Inr M
          \<and> (\<forall>k\<in>{''goals'', ''constraints'', ''verified_facts''}.
                map_of M k = Some (JList (unique_list_merge L (get_or S k (JList []))
                  (get_or D k (JList [])))))
          \<and> (\<forall>k\<in>{''tools'', ''paths''}.
                map_of (environment_of M) k
                  = Some (JList (unique_list_merge L (get_or (environment_of S) k (JList []))
                      (get_or (environment_of D) k (JList []))))))"
proof (intro conjI)
  show "unique_list_merge L a b =
       first_seen (item_key L) (entries a)
       @ first_seen (item_key L)
           (filter (\<lambda>y. item_key L y \<notin> item_key L ` set (entries a)) (entries b))"
    by (rule unique_list_merge_split)
  show "distinct (map (item_key L) (unique_list_merge L a b))"
    by (simp only: unique_list_merge_first_seen distinct_keys_first_seen)
  show "\<forall>x\<in>set (entries a). \<exists>y\<in>set (unique_list_merge L a b). item_key L y = item_key L x"
  proof
    fix x
    assume "x \<in> set (entries a)"
    then have "item_key L x \<in> item_key L ` set (first_seen (item_key L) (entries a @ entries b))"
      by (simp add: keys_first_seen)
    then show "\<exists>y\<in>set (unique_list_merge L a b). item_key L y = item_key L x"
      by (auto simp: unique_list_merge_first_seen)
  qed
  show "distinct (map (item_key L) (entries a)) \<longrightarrow>
      take (length (entries a)) (unique_list_merge L a b) = entries a"
    by (simp add: unique_list_merge_split first_seen_distinct)
  from merge_index_fields [OF assms, of L] obtain M where
    M: "merge_index L S D = Inr M"
    and other: "\<And>k. k \<noteq> ''detail_index'' \<Longrightarrow> map_of M k = map_of (merge_fields L S D) k"
    by blast
  have env: "environment_of M =
      [(''os'', get_or (environment_of D) ''os'' (get_or (environment_of S) ''os'' JNull)),
       (''runtime'', get_or (environment_of D) ''runtime'' (get_or (environment_of S) ''runtime'' JNull)),
       (''tools'', JList (unique_list_merge L (get_or (environment_of S) ''tools'' (JList []))
          (get_or (environment_of D) ''tools'' (JList [])))),
       (''paths'', JList (unique_list_merge L (get_or (environment_of S) ''paths'' (JList []))
          (get_or (environment_of D) ''paths'' (JList []))))]"
    by (simp add: environment_of_def [of M] other merge_fields_lookup merge_environment_lookup)
  have "\<forall>k\<in>{''goals'', ''constraints'', ''verified_facts''}.
      map_of M k = Some (JList (unique_list_merge L (get_or S k (JList [])) (get_or D k (JList []))))"
    by (simp add: other merge_fields_lookup)
  moreover have "\<forall>k\<in>{''tools'', ''paths''}.
      map_of (environment_of M) k
        = Some (JList (unique_list_merge L (get_or (environment_of S) k (JList []))
            (get_or (environment_of D) k (JList []))))"
    by (simp add: env)
  ultimately show "\<exists>M. merge_index L S D = Inr M
      \<and> (\<forall>k\<in>{''goals'', ''constraints'', ''verified_facts''}.
            map_of M k = Some (JList (unique_list_merge L (get_or S k (JList []))
              (get_or D k (JList [])))))
      \<and> (\<forall>k\<in>{''tools'', ''paths''}.
            map_of (environment_of M) k
              = Some (JList (unique_list_merge L (get_or (environment_of S) k (JList []))
                  (get_or (environment_of D) k (JList [])))))"
    using M by blast
qed

theorem union_merge_order_witness:
  "is_normalized (normalize_index demo_persisted) \<and> is_normalized (normalize_index demo_incoming)
   \<and> unique_list_merge (table_lib [])
        (JList [JStr ''g1'', JObj [(''a'', JInt 1), (''b'', JInt 2)]])
        (JList [JObj [(''b'', JInt 2), (''a'', JInt 1)], JStr ''g2'', JStr ''g1'', JStr ''g2''])
       = [JStr ''g1'', JObj [(''a'', JInt 1), (''b'', JInt 2)], JStr ''g2'']
   \<and> (\<exists>M. merge_index (table_lib []) (normalize_index demo_persisted) (normalize_index demo_incoming)
          = Inr M
        \<and> map_of M ''goals'' = Some (JList [JStr ''g1'', JStr ''g2''])
        \<and> map_of (environment_of M) ''tools'' = Some (JList [JStr ''git'', JStr ''make'']))"
proof -
  let ?L = "table_lib []"
  let ?S = "normalize_index demo_persisted" and ?D = "normalize_index demo_incoming"
  have 1: "is_normalized ?S" by code_simp
  have 2: "is_normalized ?D" by code_simp
  have 3: "unique_list_merge ?L
        (JList [JStr ''g1'', JObj [(''a'', JInt 1), (''b'', JInt 2)]])
        (JList [JObj [(''b'', JInt 2), (''a'', JInt 1)], JStr ''g2'', JStr ''g1'', JStr ''g2''])
       = [JStr ''g1'', JObj [(''a'', JInt 1), (''b'', JInt 2)], JStr ''g2'']"
    by code_simp
  have g: "unique_list_merge ?L (get_or ?S ''goals'' (JList [])) (get_or ?D ''goals'' (JList []))
      = [JStr ''g1'', JStr ''g2'']"
    by code_simp
  have t: "unique_list_merge ?L (get_or (environment_of ?S) ''tools'' (JList []))
        (get_or (environment_of ?D) ''tools'' (JList []))
      = [JStr ''git'', JStr ''make'']"
    by code_simp
  from union_merge_order [OF 1 2, of ?L JNull JNull, THEN conjunct2, THEN conjunct2, THEN conjunct2,
      THEN conjunct2]
  obtain M where M: "merge_index ?L ?S ?D = Inr M"
    and G: "\<forall>k\<in>{''goals'', ''constraints'', ''verified_facts''}.
        map_of M k = Some (JList (unique_list_merge ?L (get_or ?S k (JList [])) (get_or ?D k (JList []))))"
    and T: "\<forall>k\<in>{''tools'', ''paths''}.
        map_of (environment_of M) k
          = Some (JList (unique_list_merge ?L (get_or (environment_of ?S) k (JList []))
              (get_or (environment_of ?D) k (JList []))))"
    by blast
  from G g have "map_of M ''goals'' = Some (JList [JStr ''g1'', JStr ''g2''])" by simp
  moreover from T t have "map_of (environment_of M) ''tools'' = Some (JList [JStr ''git'', JStr ''make''])"
    by simp
  ultimately show ?thesis using 1 2 3 M by blast
qed

text \<open>
  C10. \<^const>\<open>unique_list_merge\<close> is defined on every pair of values and raises on
  none: an argument that is not a list counts as the empty list, so that two such
  arguments give the empty result; an item whose serialisation raises has its \<^verbatim>\<open>str\<close>
  as key, and two such items with the same \<^verbatim>\<open>str\<close> are one entry. The merge of two
  normalized indexes therefore succeeds whatever the types of the list fields are, and a
  persisted field that is not a list is dropped: the merged field is the incoming entries
  alone.
\<close>

theorem unique_list_merge_total:
  "unique_list_merge L a b = unique_list_merge L (JList (entries a)) (JList (entries b))
   \<and> ((\<forall>xs. a \<noteq> JList xs) \<longrightarrow> unique_list_merge L a b = unique_list_merge L (JList []) b)
   \<and> ((\<forall>ys. b \<noteq> JList ys) \<longrightarrow> unique_list_merge L a b = unique_list_merge L a (JList []))
   \<and> ((\<forall>xs. a \<noteq> JList xs) \<and> (\<forall>ys. b \<noteq> JList ys) \<longrightarrow> unique_list_merge L a b = [])
   \<and> (json_dumps L x = None \<longrightarrow> item_key L x = py_str L x)
   \<and> (json_dumps L x = None \<and> json_dumps L y = None \<and> py_str L x = py_str L y \<longrightarrow>
        unique_list_merge L (JList [x, y]) b = unique_list_merge L (JList [x]) b)
   \<and> (is_normalized S \<and> is_normalized D \<longrightarrow>
        (\<exists>M. merge_index L S D = Inr M
           \<and> (\<forall>k\<in>{''goals'', ''constraints'', ''verified_facts''}.
                 (\<forall>xs. get_or S k (JList []) \<noteq> JList xs) \<longrightarrow>
                 map_of M k = Some (JList (unique_list_merge L (JList []) (get_or D k (JList [])))))
           \<and> ((\<forall>xs. get_or (environment_of S) ''tools'' (JList []) \<noteq> JList xs) \<longrightarrow>
                 map_of (environment_of M) ''tools''
                   = Some (JList (unique_list_merge L (JList [])
                       (get_or (environment_of D) ''tools'' (JList [])))))
           \<and> ((\<forall>xs. get_or (environment_of S) ''paths'' (JList []) \<noteq> JList xs) \<longrightarrow>
                 map_of (environment_of M) ''paths''
                   = Some (JList (unique_list_merge L (JList [])
                       (get_or (environment_of D) ''paths'' (JList [])))))))"
proof (intro conjI impI)
  show "unique_list_merge L a b = unique_list_merge L (JList (entries a)) (JList (entries b))"
    by (rule unique_list_merge_entries)
  have na: "unique_list_merge L a' b' = unique_list_merge L (JList []) b'"
    if "\<forall>xs. a' \<noteq> JList xs" for a' b'
    using entries_not_list [OF that]
    by (simp add: unique_list_merge_first_seen entries_def [of "JList _"])
  show "unique_list_merge L a b = unique_list_merge L (JList []) b" if "\<forall>xs. a \<noteq> JList xs"
    using that by (rule na)
  show "unique_list_merge L a b = unique_list_merge L a (JList [])" if "\<forall>ys. b \<noteq> JList ys"
    using entries_not_list [OF that]
    by (simp add: unique_list_merge_first_seen entries_def [of "JList _"])
  show "unique_list_merge L a b = []" if "(\<forall>xs. a \<noteq> JList xs) \<and> (\<forall>ys. b \<noteq> JList ys)"
    using that by (simp add: unique_list_merge_first_seen entries_not_list)
  show "item_key L x = py_str L x" if "json_dumps L x = None"
    using that by (simp add: item_key_def)
  show "unique_list_merge L (JList [x, y]) b = unique_list_merge L (JList [x]) b"
    if "json_dumps L x = None \<and> json_dumps L y = None \<and> py_str L x = py_str L y"
  proof -
    from that have "item_key L y = item_key L x" by (simp add: item_key_def)
    then show ?thesis
      by (simp add: unique_list_merge_split entries_def [of "JList _"])
  qed
  assume n: "is_normalized S \<and> is_normalized D"
  from merge_index_fields [of S D L] n obtain M where
    M: "merge_index L S D = Inr M"
    and other: "\<And>k. k \<noteq> ''detail_index'' \<Longrightarrow> map_of M k = map_of (merge_fields L S D) k"
    by blast
  have env: "map_of (environment_of M) k =
      map_of [(''os'', get_or (environment_of D) ''os'' (get_or (environment_of S) ''os'' JNull)),
       (''runtime'', get_or (environment_of D) ''runtime'' (get_or (environment_of S) ''runtime'' JNull)),
       (''tools'', JList (unique_list_merge L (get_or (environment_of S) ''tools'' (JList []))
          (get_or (environment_of D) ''tools'' (JList [])))),
       (''paths'', JList (unique_list_merge L (get_or (environment_of S) ''paths'' (JList []))
          (get_or (environment_of D) ''paths'' (JList []))))] k" for k
    by (simp add: environment_of_def [of M] other merge_fields_lookup merge_environment_lookup)
  have "\<forall>k\<in>{''goals'', ''constraints'', ''verified_facts''}.
      (\<forall>xs. get_or S k (JList []) \<noteq> JList xs) \<longrightarrow>
      map_of M k = Some (JList (unique_list_merge L (JList []) (get_or D k (JList []))))"
    using na by (simp add: other merge_fields_lookup)
  moreover have "(\<forall>xs. get_or (environment_of S) ''tools'' (JList []) \<noteq> JList xs) \<longrightarrow>
      map_of (environment_of M) ''tools''
        = Some (JList (unique_list_merge L (JList []) (get_or (environment_of D) ''tools'' (JList []))))"
    using na by (simp add: env)
  moreover have "(\<forall>xs. get_or (environment_of S) ''paths'' (JList []) \<noteq> JList xs) \<longrightarrow>
      map_of (environment_of M) ''paths''
        = Some (JList (unique_list_merge L (JList []) (get_or (environment_of D) ''paths'' (JList []))))"
    using na by (simp add: env)
  ultimately show "\<exists>M. merge_index L S D = Inr M
      \<and> (\<forall>k\<in>{''goals'', ''constraints'', ''verified_facts''}.
            (\<forall>xs. get_or S k (JList []) \<noteq> JList xs) \<longrightarrow>
            map_of M k = Some (JList (unique_list_merge L (JList []) (get_or D k (JList [])))))
      \<and> ((\<forall>xs. get_or (environment_of S) ''tools'' (JList []) \<noteq> JList xs) \<longrightarrow>
            map_of (environment_of M) ''tools''
              = Some (JList (unique_list_merge L (JList [])
                  (get_or (environment_of D) ''tools'' (JList [])))))
      \<and> ((\<forall>xs. get_or (environment_of S) ''paths'' (JList []) \<noteq> JList xs) \<longrightarrow>
            map_of (environment_of M) ''paths''
              = Some (JList (unique_list_merge L (JList [])
                  (get_or (environment_of D) ''paths'' (JList [])))))"
    using M by blast
qed

theorem unique_list_merge_total_witness:
  "unique_list_merge (table_lib []) (JStr ''oops'') (JList [JStr ''g1''])
     = unique_list_merge (table_lib []) (JList []) (JList [JStr ''g1''])
   \<and> unique_list_merge (table_lib []) (JStr ''oops'') (JObj []) = []
   \<and> json_dumps raising_lib (JInt 1) = None
   \<and> item_key raising_lib (JInt 1) = py_str raising_lib (JInt 1)
   \<and> py_str raising_lib (JInt 1) = py_str raising_lib (JStr ''1'')
   \<and> unique_list_merge raising_lib (JList [JInt 1, JStr ''1'']) (JList [])
       = unique_list_merge raising_lib (JList [JInt 1]) (JList [])
   \<and> is_normalized (normalize_index demo_illtyped)
   \<and> is_normalized (normalize_index demo_incoming)
   \<and> (\<exists>M. merge_index (table_lib []) (normalize_index demo_illtyped) (normalize_index demo_incoming)
          = Inr M
        \<and> map_of M ''goals'' = Some (JList [JStr ''g2'', JStr ''g1'']))"
proof -
  let ?L = "table_lib []"
  let ?S = "normalize_index demo_illtyped" and ?D = "normalize_index demo_incoming"
  have a: "\<forall>xs. JStr ''oops'' \<noteq> JList xs" and b: "\<forall>ys. JObj [] \<noteq> JList ys" by simp_all
  have d1: "json_dumps raising_lib (JInt 1) = None" and d2: "json_dumps raising_lib (JStr ''1'') = None"
    by (simp_all add: raising_lib_def)
  have st: "py_str raising_lib (JInt 1) = py_str raising_lib (JStr ''1'')" by code_simp
  have n1: "is_normalized ?S" by code_simp
  have n2: "is_normalized ?D" by code_simp
  have "get_or ?S ''goals'' (JList []) = JStr ''ship it''" by code_simp
  then have gs: "\<forall>xs. get_or ?S ''goals'' (JList []) \<noteq> JList xs" by simp
  have gd: "unique_list_merge ?L (JList []) (get_or ?D ''goals'' (JList [])) = [JStr ''g2'', JStr ''g1'']"
    by code_simp
  have 1: "unique_list_merge ?L (JStr ''oops'') (JList [JStr ''g1''])
      = unique_list_merge ?L (JList []) (JList [JStr ''g1''])"
    by (rule unique_list_merge_total [THEN conjunct2, THEN conjunct1, rule_format, OF a [rule_format]])
  have 2: "unique_list_merge ?L (JStr ''oops'') (JObj []) = []"
    using unique_list_merge_total [of ?L "JStr ''oops''" "JObj []", THEN conjunct2, THEN conjunct2,
        THEN conjunct2, THEN conjunct1] a b
    by blast
  have 3: "item_key raising_lib (JInt 1) = py_str raising_lib (JInt 1)"
    using unique_list_merge_total [of raising_lib _ _ "JInt 1", THEN conjunct2, THEN conjunct2,
        THEN conjunct2, THEN conjunct2, THEN conjunct1] d1
    by blast
  have 4: "unique_list_merge raising_lib (JList [JInt 1, JStr ''1'']) (JList [])
      = unique_list_merge raising_lib (JList [JInt 1]) (JList [])"
    using unique_list_merge_total [of raising_lib _ "JList []" "JInt 1" "JStr ''1''", THEN conjunct2,
        THEN conjunct2, THEN conjunct2, THEN conjunct2, THEN conjunct2, THEN conjunct1] d1 d2 st
    by blast
  from unique_list_merge_total [of ?L _ _ _ _ ?S ?D, THEN conjunct2, THEN conjunct2, THEN conjunct2,
      THEN conjunct2, THEN conjunct2, THEN conjunct2] n1 n2
  obtain M where M: "merge_index ?L ?S ?D = Inr M"
    and G: "\<forall>k\<in>{''goals'', ''constraints'', ''verified_facts''}.
        (\<forall>xs. get_or ?S k (JList []) \<noteq> JList xs) \<longrightarrow>
        map_of M k = Some (JList (unique_list_merge ?L (JList []) (get_or ?D k (JList []))))"
    by blast
  from G gs gd have "map_of M ''goals'' = Some (JList [JStr ''g2'', JStr ''g1''])" by simp
  with M have 5: "\<exists>M. merge_index ?L ?S ?D = Inr M
      \<and> map_of M ''goals'' = Some (JList [JStr ''g2'', JStr ''g1''])"
    by blast
  show ?thesis
    by (intro conjI 1 2 d1 3 st 4 n1 n2 5)
qed

text \<open>
  An incoming index that went through \<^const>\<open>normalize_index\<close> has the three keys, so the
  merge always takes the incoming values; the fallback on the persisted value is never
  reached.
\<close>

lemma latest_wins_normalized:
  assumes "is_normalized S" and "is_normalized D" and "k \<in> {''project'', ''current_state'', ''next_actions''}"
  shows "\<exists>M. merge_index L S D = Inr M \<and> map_of M k = map_of D k"
proof -
  from merge_index_fields [OF assms(1,2), of L] obtain M where
    M: "merge_index L S D = Inr M"
    and other: "\<And>k. k \<noteq> ''detail_index'' \<Longrightarrow> map_of M k = map_of (merge_fields L S D) k"
    by blast
  from assms(2,3) obtain x where "map_of D k = Some x"
    by (auto simp: is_normalized_def schema_keys_def)
  with assms(3) have "map_of M k = map_of D k"
    by (auto simp: other merge_fields_lookup get_or_def)
  with M show ?thesis by blast
qed

section \<open>The search for the file blocks\<close>

lemma match_literal_Some: "match_literal lit s = Some r \<longleftrightarrow> s = lit @ r"
  by (auto simp: match_literal_def startswith_def split: if_splits)
    (metis append_take_drop_id)

lemma lstrip_decompose: "\<exists>ws. s = ws @ lstrip s \<and> (\<forall>c\<in>set ws. is_space c)"
proof -
  have "s = takeWhile is_space s @ lstrip s" by (simp add: lstrip_def)
  moreover have "\<forall>c\<in>set (takeWhile is_space s). is_space c"
    by (auto dest: set_takeWhileD)
  ultimately show ?thesis by blast
qed

lemma match_ws_literal_Some:
  assumes "match_ws_literal lit s = Some r"
  shows "\<exists>ws. s = ws @ lit @ r \<and> (\<forall>c\<in>set ws. is_space c)"
proof -
  from assms have "lstrip s = lit @ r"
    by (simp add: match_ws_literal_def match_literal_Some)
  with lstrip_decompose [of s] show ?thesis by auto
qed

lemma lazy_group_Some:
  "lazy_group k s = Some (g, r) \<Longrightarrow> \<exists>rest. s = g @ rest \<and> k rest = Some r"
proof (induction s arbitrary: g)
  case Nil
  then show ?case by (auto split: option.splits)
next
  case (Cons c cs)
  show ?case
  proof (cases "k (c # cs)")
    case (Some r')
    with Cons.prems show ?thesis by auto
  next
    case None
    with Cons.prems obtain g' where g': "lazy_group k cs = Some (g', r)" "g = c # g'"
      by (auto split: option.splits)
    from Cons.IH [OF g'(1)] g'(2) show ?thesis by auto
  qed
qed

lemma lazy_group_complete:
  "k rest \<noteq> None \<Longrightarrow> lazy_group k (g @ rest) \<noteq> None"
proof (induction g)
  case Nil
  then show ?case by (cases rest) (auto split: option.splits)
next
  case (Cons c g)
  then show ?case by (auto split: option.splits)
qed

lemma not_space_eq: "\<not> is_space CHR ''=''"
  by (simp add: is_space_def)

lemma lstrip_before_marker:
  assumes "r \<noteq> []" and "\<not> is_space (hd r)"
  shows "\<exists>x'. lstrip (x @ r) = x' @ r"
proof (induction x)
  case Nil
  from assms have "lstrip r = r" by (cases r) (simp_all add: lstrip_def)
  then show ?case by auto
next
  case (Cons c x)
  then show ?case by (cases "is_space c") (auto simp: lstrip_def)
qed

lemma match_ws_literal_complete:
  assumes "\<forall>c\<in>set ws. is_space c" and "lit \<noteq> []" and "\<not> is_space (hd lit)"
  shows "match_ws_literal lit (ws @ lit @ r) = Some r"
proof -
  have "dropWhile is_space (ws @ lit @ r) = dropWhile is_space (lit @ r)"
    using assms(1) by (simp add: dropWhile_append3 dropWhile_append)
  also have "\<dots> = lit @ r"
    using assms(2,3) by (cases lit) simp_all
  finally show ?thesis
    by (simp add: match_ws_literal_def lstrip_def match_literal_Some)
qed

lemma end_marker_head: "end_marker \<noteq> [] \<and> \<not> is_space (hd end_marker)"
  by (simp add: end_marker_def is_space_def)

lemma ndjson_marker_head: "ndjson_marker \<noteq> [] \<and> \<not> is_space (hd ndjson_marker)"
  by (simp add: ndjson_marker_def is_space_def)

lemma match_tail_Some:
  assumes "match_tail s = Some nd"
  shows "\<exists>ws1 ws2 nd' post. s = ws1 @ end_marker @ ws2 @ ndjson_marker @ nd' @ end_marker @ post
     \<and> (\<forall>c\<in>set ws1. is_space c) \<and> (\<forall>c\<in>set ws2. is_space c)"
proof -
  from assms obtain s1 s2 r where
    1: "match_ws_literal end_marker s = Some s1"
    and 2: "match_ws_literal ndjson_marker s1 = Some s2"
    and 3: "lazy_group (match_ws_literal end_marker) (lstrip s2) = Some (nd, r)"
    by (auto simp: match_tail_def split: option.splits)
  from match_ws_literal_Some [OF 1] obtain ws1 where
    ws1: "s = ws1 @ end_marker @ s1" "\<forall>c\<in>set ws1. is_space c" by blast
  from match_ws_literal_Some [OF 2] obtain ws2 where
    ws2: "s1 = ws2 @ ndjson_marker @ s2" "\<forall>c\<in>set ws2. is_space c" by blast
  from lazy_group_Some [OF 3] obtain rest where
    rest: "lstrip s2 = nd @ rest" "match_ws_literal end_marker rest = Some r" by blast
  from match_ws_literal_Some [OF rest(2)] obtain ws4 where
    ws4: "rest = ws4 @ end_marker @ r" by blast
  from lstrip_decompose [of s2] obtain ws3 where ws3: "s2 = ws3 @ lstrip s2" by blast
  have "s2 = (ws3 @ nd @ ws4) @ end_marker @ r"
    using ws3 rest(1) ws4 by (metis append.assoc)
  with ws1 ws2 show ?thesis by blast
qed

lemma match_tail_complete:
  assumes "\<forall>c\<in>set ws. is_space c"
  shows "match_tail (end_marker @ ws @ ndjson_marker @ nd @ end_marker @ post) \<noteq> None"
proof -
  have 1: "match_ws_literal end_marker (end_marker @ ws @ ndjson_marker @ nd @ end_marker @ post)
      = Some (ws @ ndjson_marker @ nd @ end_marker @ post)"
    using match_ws_literal_complete [of "[]" end_marker] end_marker_head by simp
  have 2: "match_ws_literal ndjson_marker (ws @ ndjson_marker @ nd @ end_marker @ post)
      = Some (nd @ end_marker @ post)"
    using match_ws_literal_complete [OF assms] ndjson_marker_head by simp
  from lstrip_before_marker [of "end_marker @ post" nd] end_marker_head
  obtain nd' where nd': "lstrip (nd @ end_marker @ post) = nd' @ end_marker @ post"
    by (cases end_marker) auto
  have "match_ws_literal end_marker (end_marker @ post) \<noteq> None"
    using match_ws_literal_complete [of "[]" end_marker post] end_marker_head by simp
  then have "lazy_group (match_ws_literal end_marker) (nd' @ end_marker @ post) \<noteq> None"
    by (rule lazy_group_complete)
  then show ?thesis
    by (auto simp: match_tail_def 1 2 nd' split: option.splits)
qed

lemma match_here_Some:
  assumes "match_here s = Some r"
  shows "has_file_blocks s"
proof -
  obtain g nd where r: "r = (g, nd)" by (cases r)
  from assms r obtain s1 where
    1: "match_literal index_marker s = Some s1"
    and 2: "lazy_group match_tail (lstrip s1) = Some (g, nd)"
    by (auto simp: match_here_def split: option.splits)
  from 1 have s: "s = index_marker @ s1" by (simp add: match_literal_Some)
  from lazy_group_Some [OF 2] obtain rest where
    rest: "lstrip s1 = g @ rest" "match_tail rest = Some nd" by blast
  from match_tail_Some [OF rest(2)] obtain ws1 ws2 nd' post where
    t: "rest = ws1 @ end_marker @ ws2 @ ndjson_marker @ nd' @ end_marker @ post"
    and ws2: "\<forall>c\<in>set ws2. is_space c" by blast
  from lstrip_decompose [of s1] obtain ws0 where ws0: "s1 = ws0 @ lstrip s1" by blast
  have "s = [] @ index_marker @ (ws0 @ g @ ws1) @ end_marker @ ws2 @ ndjson_marker @ nd'
      @ end_marker @ post"
    using s ws0 rest(1) t by (metis append.assoc append_Nil)
  with ws2 show ?thesis unfolding has_file_blocks_def by blast
qed

lemma has_file_blocks_Cons: "has_file_blocks s \<Longrightarrow> has_file_blocks (c # s)"
proof -
  assume "has_file_blocks s"
  then obtain pre idx ws nd post where
    "s = pre @ index_marker @ idx @ end_marker @ ws @ ndjson_marker @ nd @ end_marker @ post"
    "\<forall>c\<in>set ws. is_space c"
    unfolding has_file_blocks_def by blast
  then have "c # s = (c # pre) @ index_marker @ idx @ end_marker @ ws @ ndjson_marker @ nd
      @ end_marker @ post \<and> (\<forall>c\<in>set ws. is_space c)"
    by simp
  then show ?thesis unfolding has_file_blocks_def by blast
qed

lemma file_block_search_Some: "file_block_search t = Some r \<Longrightarrow> has_file_blocks t"
proof (induction t)
  case Nil
  then show ?case by (simp add: match_here_Some)
next
  case (Cons c cs)
  show ?case
  proof (cases "match_here (c # cs)")
    case None
    with Cons show ?thesis by (simp add: has_file_blocks_Cons)
  next
    case (Some r')
    then show ?thesis by (rule match_here_Some)
  qed
qed

lemma match_here_complete:
  assumes "\<forall>c\<in>set ws. is_space c"
  shows "match_here (index_marker @ idx @ end_marker @ ws @ ndjson_marker @ nd @ end_marker @ post)
     \<noteq> None"
proof -
  let ?rest = "end_marker @ ws @ ndjson_marker @ nd @ end_marker @ post"
  from lstrip_before_marker [of ?rest idx] end_marker_head
  obtain idx' where idx': "lstrip (idx @ ?rest) = idx' @ ?rest"
    by (cases end_marker) auto
  have "lazy_group match_tail (idx' @ ?rest) \<noteq> None"
    by (rule lazy_group_complete) (rule match_tail_complete [OF assms])
  then show ?thesis
    by (simp add: match_here_def match_literal_def startswith_def idx')
qed

lemma file_block_search_prefix:
  "match_here s \<noteq> None \<Longrightarrow> file_block_search (pre @ s) \<noteq> None"
proof (induction pre)
  case Nil
  then show ?case by (cases s) (auto split: option.splits)
next
  case (Cons c pre)
  then show ?case by (auto split: option.splits)
qed

lemma file_block_search_complete: "has_file_blocks t \<Longrightarrow> file_block_search t \<noteq> None"
  unfolding has_file_blocks_def
  using file_block_search_prefix match_here_complete by blast

text \<open>The search finds the two blocks exactly when the text holds them.\<close>

lemma file_block_search_None: "file_block_search t = None \<longleftrightarrow> \<not> has_file_blocks t"
proof
  assume "file_block_search t = None"
  then show "\<not> has_file_blocks t"
    using file_block_search_complete [of t] by auto
next
  assume "\<not> has_file_blocks t"
  then show "file_block_search t = None"
    using file_block_search_Some [of t] by (cases "file_block_search t") auto
qed

text \<open>
  C7. Atomicity on a malformed reply: for every reply text that does not hold the index
  block, opened by its marker and closed by the end marker, followed after white space
  only by the NDJSON block, opened by its marker and closed by the end marker,
  \<^const>\<open>parse_model_output_to_context\<close> raises the parse error and leaves the store as it
  was: no resolution file is created and the index file is not written.
\<close>

theorem malformed_reply_writes_nothing:
  assumes "\<not> has_file_blocks out_text"
  shows "parse_model_output_to_context L out_text s = (Inl NoFileBlocks, s)"
proof -
  from assms have "file_block_search out_text = None"
    by (simp add: file_block_search_None)
  then show ?thesis by (simp add: parse_model_output_to_context_def)
qed

theorem malformed_reply_writes_nothing_witness:
  "\<not> has_file_blocks unclosed_reply
   \<and> parse_model_output_to_context
        (example_lib [JObj [(''project'', JStr ''demo'')], JObj [(''id'', JStr ''res-001'')]])
        unclosed_reply empty_store
      = (Inl NoFileBlocks, empty_store)"
proof -
  have "file_block_search unclosed_reply = None" by code_simp
  then have 1: "\<not> has_file_blocks unclosed_reply"
    by (simp add: file_block_search_None)
  from malformed_reply_writes_nothing [OF 1] 1 show ?thesis by blast
qed

section \<open>The allocation of ids\<close>

lemma digit_char_digit: "d < 10 \<Longrightarrow> digit_char d \<in> set ''0123456789''"
proof -
  assume "d < 10"
  then have "d \<in> {0, 1, 2, 3, 4, 5, 6, 7, 8, 9}" by auto
  then show ?thesis by (auto simp: digit_char_def)
qed

lemma dec_digits: "set (dec n) \<subseteq> set ''0123456789''"
proof (induction n rule: dec.induct)
  case (1 n)
  show ?case
  proof (cases "n < 10")
    case True
    then show ?thesis
      using digit_char_digit [of n] by (subst dec.simps) simp
  next
    case False
    then have "set (dec (n div 10)) \<subseteq> set ''0123456789''" using 1 by simp
    moreover have "digit_char (n mod 10) \<in> set ''0123456789''"
      by (rule digit_char_digit) simp
    ultimately show ?thesis using False
      by (subst dec.simps) simp
  qed
qed

lemma utf8_length_append: "utf8_length (a @ b) = utf8_length a + utf8_length b"
  by (simp add: utf8_length_def)

lemma utf8_length_digits: "set s \<subseteq> set ''0123456789'' \<Longrightarrow> utf8_length s = length s"
proof -
  assume a: "set s \<subseteq> set ''0123456789''"
  have "\<not> 128 \<le> (of_char c :: nat)" if "c \<in> set ''0123456789''" for c
    using that by auto
  with a have "filter (\<lambda>c. 128 \<le> (of_char c :: nat)) s = []"
    by (auto simp only: filter_empty_conv)
  then show ?thesis by (simp add: utf8_length_def)
qed

lemma dec_length: "0 < k \<Longrightarrow> n < 10 ^ k \<Longrightarrow> length (dec n) \<le> k"
proof (induction n arbitrary: k rule: dec.induct)
  case (1 n)
  show ?case
  proof (cases "n < 10")
    case True
    with "1.prems" show ?thesis by (subst dec.simps) simp
  next
    case False
    from "1.prems" obtain k' where k: "k = Suc k'" by (cases k) auto
    have "0 < k'"
    proof (rule ccontr)
      assume "\<not> 0 < k'"
      with k "1.prems" False show False by simp
    qed
    moreover from "1.prems" k have "n div 10 < 10 ^ k'"
      by (simp add: less_mult_imp_div_less mult.commute)
    ultimately have "length (dec (n div 10)) \<le> k'"
      using "1.IH" False by simp
    with False k show ?thesis by (subst dec.simps) simp
  qed
qed

text \<open>
  The file of the id \<^verbatim>\<open>res-NNN\<close> has a name that \<^verbatim>\<open>open\<close> accepts as long as the
  number has at most 246 digits.
\<close>

lemma open_error_cases: "open_error name \<in> {None, Some OSError, Some EmbeddedNul}"
  by (simp add: open_error_def)

lemma open_error_res_id: "open_error (res_id n @ ''.json'') \<in> {None, Some OSError}"
proof -
  have "CHR 0x00 \<notin> set ''0123456789''" by simp
  with dec_digits [of n] have d: "CHR 0x00 \<notin> set (dec n)" by blast
  have "set (replicate k CHR ''0'') \<subseteq> {CHR ''0''}" for k by auto
  then have r: "CHR 0x00 \<notin> set (replicate k CHR ''0'')" for k by auto
  have "CHR 0x00 \<notin> set (res_id n @ ''.json'')"
    by (simp add: res_id_def format_03d_def d r del: set_replicate)
  then show ?thesis by (simp add: open_error_def)
qed

lemma path_ok_res_id:
  assumes "n < 10 ^ 246"
  shows "path_ok (res_id n @ ''.json'')"
proof -
  have "CHR ''/'' \<notin> set ''0123456789''" and "CHR 0x00 \<notin> set ''0123456789''"
    by simp_all
  with dec_digits [of n] have d: "CHR ''/'' \<notin> set (dec n)" "CHR 0x00 \<notin> set (dec n)"
    by blast+
  have z: "set (replicate k CHR ''0'') \<subseteq> set ''0123456789''" for k
    by auto
  then have r: "CHR ''/'' \<notin> set (replicate k CHR ''0'')" "CHR 0x00 \<notin> set (replicate k CHR ''0'')" for k
    by auto
  have chars: "CHR ''/'' \<notin> set (res_id n @ ''.json'')" "CHR 0x00 \<notin> set (res_id n @ ''.json'')"
    by (simp_all add: res_id_def format_03d_def d r del: set_replicate)
  have "set (format_03d n) \<subseteq> set ''0123456789''"
    using dec_digits [of n] z [of "3 - length (dec n)"]
    by (simp add: format_03d_def del: set_replicate)
  then have "utf8_length (format_03d n) = length (format_03d n)"
    by (rule utf8_length_digits)
  moreover have "length (dec n) \<le> 246"
    using assms by (intro dec_length) simp_all
  then have "length (format_03d n) \<le> 246"
    by (simp add: format_03d_def)
  moreover have "utf8_length ''res-'' = 4" and "utf8_length ''.json'' = 5"
    by (simp_all add: utf8_length_def)
  moreover have "utf8_length (res_id n @ ''.json'')
      = utf8_length ''res-'' + utf8_length (format_03d n) + utf8_length ''.json''"
    by (simp only: res_id_def utf8_length_append)
  ultimately have "utf8_length (res_id n @ ''.json'') \<le> name_max"
    by (simp only: name_max_def)
  with chars show ?thesis
    by (simp add: path_ok_def open_error_def)
qed

lemma startswith_res_id: "startswith (res_id n) ''res-''"
  by (simp add: startswith_def res_id_def)

lemma startswith_append: "startswith s p \<Longrightarrow> startswith (s @ t) p"
proof -
  assume a: "startswith s p"
  then have "length (take (length p) s) = length p"
    by (simp only: startswith_def)
  then have "length p \<le> length s" by simp
  with a show ?thesis by (simp add: startswith_def)
qed

lemma existing_ids_iff:
  assumes "startswith rid ''res-''"
  shows "rid |\<in>| existing_ids d \<longleftrightarrow> path_exists (rid @ ''.json'') d"
proof
  assume "rid |\<in>| existing_ids d"
  then obtain name where name: "name \<in> fst ` set d" "endswith name ''.json''"
      "rid = take (length name - 5) name"
    by (auto simp: existing_ids_def fset_of_list.rep_eq)
  have l5: "length ''.json'' = 5" by simp
  from name(2) have "drop (length name - 5) name = ''.json''"
    unfolding endswith_def l5 by blast
  then have "take (length name - 5) name @ ''.json'' = name"
    using append_take_drop_id [of "length name - 5" name] by simp
  with name(1,3) have "rid @ ''.json'' \<in> fst ` set d" by simp
  then show "path_exists (rid @ ''.json'') d"
    by (simp add: path_exists_def map_of_eq_None_iff)
next
  assume "path_exists (rid @ ''.json'') d"
  then have in_d: "rid @ ''.json'' \<in> fst ` set d"
    by (simp add: path_exists_def map_of_eq_None_iff)
  have s: "startswith (rid @ ''.json'') ''res-''"
    using assms by (rule startswith_append)
  have e: "endswith (rid @ ''.json'') ''.json''"
    by (simp add: endswith_def)
  have t: "take (length (rid @ ''.json'') - 5) (rid @ ''.json'') = rid" by simp
  from in_d s e have "rid @ ''.json'' \<in> set (filter (\<lambda>name. startswith name ''res-'' \<and> endswith name ''.json'')
      (map fst d))"
    by simp
  then have "take (length (rid @ ''.json'') - 5) (rid @ ''.json'')
      \<in> (\<lambda>name. take (length name - 5) name)
          ` set (filter (\<lambda>name. startswith name ''res-'' \<and> endswith name ''.json'') (map fst d))"
    by (rule imageI)
  then show "rid |\<in>| existing_ids d"
    by (simp only: t existing_ids_def fset_of_list.rep_eq set_map)
qed

lemma alloc_loop_spec:
  assumes "alloc_loop existing reserved n = (rid, reserved')"
  shows "\<exists>m\<ge>n. rid = res_id m \<and> rid |\<notin>| existing \<and> rid |\<notin>| reserved
     \<and> (\<forall>j. n \<le> j \<and> j < m \<longrightarrow> res_id j |\<in>| existing \<or> res_id j |\<in>| reserved)
     \<and> reserved' = finsert rid reserved"
  using assms
proof (induction existing reserved n rule: alloc_loop.induct)
  case (1 existing reserved n)
  show ?case
  proof (cases "res_id n |\<notin>| existing \<and> res_id n |\<notin>| reserved")
    case True
    with "1.prems" have "rid = res_id n" "reserved' = finsert rid reserved"
      by (auto simp: alloc_loop.simps [of existing reserved n] Let_def)
    with True show ?thesis by (intro exI [of _ n]) auto
  next
    case False
    with "1.prems" have "alloc_loop existing reserved (n + 1) = (rid, reserved')"
      by (simp add: alloc_loop.simps [of existing reserved n] Let_def)
    with "1.IH" False obtain m where m: "m \<ge> n + 1" "rid = res_id m" "rid |\<notin>| existing"
        "rid |\<notin>| reserved"
        "\<forall>j. n + 1 \<le> j \<and> j < m \<longrightarrow> res_id j |\<in>| existing \<or> res_id j |\<in>| reserved"
        "reserved' = finsert rid reserved"
      by auto
    have "\<forall>j. n \<le> j \<and> j < m \<longrightarrow> res_id j |\<in>| existing \<or> res_id j |\<in>| reserved"
    proof (intro allI impI)
      fix j
      assume j: "n \<le> j \<and> j < m"
      show "res_id j |\<in>| existing \<or> res_id j |\<in>| reserved"
      proof (cases "j = n")
        case True
        with False show ?thesis by auto
      next
        case False
        with j m(5) show ?thesis by auto
      qed
    qed
    with m show ?thesis by (intro exI [of _ m]) auto
  qed
qed

text \<open>
  The id that \<^verbatim>\<open>allocate_next_res_id\<close> returns is \<^verbatim>\<open>res-NNN\<close> for the least number,
  from 1, whose file is not in the directory and that is not reserved; it is reserved on
  return.
\<close>

lemma allocate_next_res_id_spec:
  "\<exists>n\<ge>1. allocate_next_res_id d reserved = (res_id n, finsert (res_id n) reserved)
     \<and> \<not> path_exists (res_id n @ ''.json'') d \<and> res_id n |\<notin>| reserved
     \<and> (\<forall>j. 1 \<le> j \<and> j < n \<longrightarrow> path_exists (res_id j @ ''.json'') d \<or> res_id j |\<in>| reserved)"
proof -
  obtain rid reserved' where a: "alloc_loop (existing_ids d) reserved 1 = (rid, reserved')"
    by (cases "alloc_loop (existing_ids d) reserved 1")
  from alloc_loop_spec [OF a] obtain m where m: "m \<ge> 1" "rid = res_id m"
      "rid |\<notin>| existing_ids d" "rid |\<notin>| reserved"
      "\<forall>j. 1 \<le> j \<and> j < m \<longrightarrow> res_id j |\<in>| existing_ids d \<or> res_id j |\<in>| reserved"
      "reserved' = finsert rid reserved"
    by blast
  show ?thesis
    using a m by (intro exI [of _ m]) (auto simp: allocate_next_res_id_def existing_ids_iff startswith_res_id)
qed

text \<open>
  The scan stops by the number of the files and the reserved ids, plus one.
\<close>

lemma least_free_bound:
  assumes "\<forall>j. 1 \<le> j \<and> j < n \<longrightarrow> path_exists (res_id j @ ''.json'') d \<or> res_id j |\<in>| reserved"
  shows "n \<le> Suc (length d + fcard reserved)"
proof -
  let ?A = "{j. 1 \<le> j \<and> j < n \<and> path_exists (res_id j @ ''.json'') d}"
  let ?B = "{j. 1 \<le> j \<and> j < n \<and> res_id j |\<in>| reserved}"
  have fin: "finite ?A" "finite ?B" by simp_all
  have inj: "inj_on f S" if "\<And>a b. f a = f b \<Longrightarrow> a = b" for f :: "nat \<Rightarrow> string" and S
    using that by (auto simp: inj_on_def)
  have "(\<lambda>j. res_id j @ ''.json'') ` ?A \<subseteq> set (map fst d)"
    by (auto simp: path_exists_def map_of_eq_None_iff)
  moreover have "inj_on (\<lambda>j. res_id j @ ''.json'') ?A"
    by (rule inj) (auto dest: res_id_inj)
  ultimately have "card ?A \<le> card (set (map fst d))"
    by (intro card_inj_on_le) simp_all
  also have "\<dots> \<le> length d"
    using card_length [of "map fst d"] by simp
  finally have a: "card ?A \<le> length d" .
  have "res_id ` ?B \<subseteq> fset reserved" by auto
  moreover have "inj_on res_id ?B"
    by (rule inj) (auto dest: res_id_inj)
  ultimately have "card ?B \<le> card (fset reserved)"
    by (intro card_inj_on_le) simp_all
  then have b: "card ?B \<le> fcard reserved"
    by (simp add: fcard.rep_eq)
  have "{1..<n} \<subseteq> ?A \<union> ?B" using assms by auto
  then have "card {1..<n} \<le> card (?A \<union> ?B)"
    using fin by (intro card_mono) simp_all
  also have "\<dots> \<le> card ?A + card ?B" by (rule card_Un_le)
  finally show ?thesis using a b by simp
qed

section \<open>The loop over the records\<close>

text \<open>The three outcomes of a line that decodes to a dict with a string id.\<close>

lemma process_line_invalid:
  assumes "json_loads L ln = Some (JObj obj)"
    and "\<not> (\<exists>rid. get_or obj ''id'' JNull = JStr rid \<and> startswith rid ''res-'')"
  shows "process_line L ln st = Inl (InvalidId (get_or obj ''id'' JNull))"
  using assms by (cases "get_or obj ''id'' JNull") (simp_all add: process_line_def)

lemma process_line_collision:
  assumes "json_loads L ln = Some (JObj obj)" and "get_or obj ''id'' JNull = JStr rid"
    and "startswith rid ''res-''" and "collides rid st"
  shows "\<exists>n\<ge>1. process_line L ln st =
        (if path_ok (res_id n @ ''.json'')
         then Inr \<lparr>files = AList.update (res_id n @ ''.json'')
                  (JObj (set_item ''id'' (JStr (res_id n)) obj)) (files st),
                id_remap = (id_remap st)(rid \<mapsto> res_id n),
                written_ids = written_ids st @ [res_id n],
                reserved_ids = finsert (res_id n) (reserved_ids st)\<rparr>
         else Inl OSError)
     \<and> \<not> path_exists (res_id n @ ''.json'') (files st) \<and> res_id n |\<notin>| reserved_ids st
     \<and> (\<forall>j. 1 \<le> j \<and> j < n \<longrightarrow>
          path_exists (res_id j @ ''.json'') (files st) \<or> res_id j |\<in>| reserved_ids st)
     \<and> n \<le> Suc (length (files st) + fcard (reserved_ids st))"
proof -
  from allocate_next_res_id_spec [of "files st" "reserved_ids st"] obtain n where
    n: "n \<ge> 1"
      "allocate_next_res_id (files st) (reserved_ids st)
         = (res_id n, finsert (res_id n) (reserved_ids st))"
      "\<not> path_exists (res_id n @ ''.json'') (files st)" "res_id n |\<notin>| reserved_ids st"
      "\<forall>j. 1 \<le> j \<and> j < n \<longrightarrow>
          path_exists (res_id j @ ''.json'') (files st) \<or> res_id j |\<in>| reserved_ids st"
    by blast
  have "process_line L ln st =
        (if path_ok (res_id n @ ''.json'')
         then Inr \<lparr>files = AList.update (res_id n @ ''.json'')
                  (JObj (set_item ''id'' (JStr (res_id n)) obj)) (files st),
                id_remap = (id_remap st)(rid \<mapsto> res_id n),
                written_ids = written_ids st @ [res_id n],
                reserved_ids = finsert (res_id n) (reserved_ids st)\<rparr>
         else Inl OSError)"
    using assms n(2) open_error_res_id [of n]
    by (auto simp: process_line_def collides_def write_file_def path_ok_def)
  moreover have "n \<le> Suc (length (files st) + fcard (reserved_ids st))"
    using n(5) by (rule least_free_bound)
  ultimately show ?thesis using n by blast
qed

lemma process_line_fresh:
  assumes "json_loads L ln = Some (JObj obj)" and "get_or obj ''id'' JNull = JStr rid"
    and "startswith rid ''res-''" and "\<not> collides rid st"
  shows "process_line L ln st =
     (case open_error (rid @ ''.json'') of
        None \<Rightarrow> Inr \<lparr>files = AList.update (rid @ ''.json'') (JObj obj) (files st),
                id_remap = id_remap st,
                written_ids = written_ids st @ [rid],
                reserved_ids = finsert rid (reserved_ids st)\<rparr>
      | Some e \<Rightarrow> Inl e)"
  using assms by (simp add: process_line_def collides_def write_file_def split: option.splits)

lemma process_line_valid_not_InvalidId:
  assumes "json_loads L ln = Some (JObj obj)" and "get_or obj ''id'' JNull = JStr rid"
    and "startswith rid ''res-''"
  shows "process_line L ln st \<noteq> Inl (InvalidId v)"
proof (cases "collides rid st")
  case True
  from process_line_collision [OF assms True] show ?thesis by (auto split: if_splits)
next
  case False
  from process_line_fresh [OF assms False] open_error_cases [of "rid @ ''.json''"]
  show ?thesis by (auto split: option.splits)
qed

text \<open>What a line that succeeds does to the state.\<close>

lemma process_line_Inr:
  assumes "process_line L ln st = Inr st'"
  shows "\<exists>wid obj. files st' = AList.update (wid @ ''.json'') (JObj obj) (files st)
     \<and> map_of obj ''id'' = Some (JStr wid)
     \<and> written_ids st' = written_ids st @ [wid]
     \<and> reserved_ids st' = finsert wid (reserved_ids st)
     \<and> \<not> path_exists (wid @ ''.json'') (files st) \<and> wid |\<notin>| reserved_ids st"
proof -
  from assms obtain obj where obj: "json_loads L ln = Some (JObj obj)"
    by (auto simp: process_line_def split: option.splits json.splits)
  have "\<exists>rid. get_or obj ''id'' JNull = JStr rid \<and> startswith rid ''res-''"
    using process_line_invalid [OF obj, of st] assms by auto
  then obtain rid where rid: "get_or obj ''id'' JNull = JStr rid" "startswith rid ''res-''"
    by blast
  show ?thesis
  proof (cases "collides rid st")
    case True
    from process_line_collision [OF obj rid True] assms obtain n where
      n: "st' = \<lparr>files = AList.update (res_id n @ ''.json'')
                (JObj (set_item ''id'' (JStr (res_id n)) obj)) (files st),
             id_remap = (id_remap st)(rid \<mapsto> res_id n),
             written_ids = written_ids st @ [res_id n],
             reserved_ids = finsert (res_id n) (reserved_ids st)\<rparr>"
        "\<not> path_exists (res_id n @ ''.json'') (files st)" "res_id n |\<notin>| reserved_ids st"
      by (auto split: if_splits)
    have "map_of (set_item ''id'' (JStr (res_id n)) obj) ''id'' = Some (JStr (res_id n))"
      by (simp add: map_of_set_item)
    with n show ?thesis by (intro exI [of _ "res_id n"]) auto
  next
    case False
    from process_line_fresh [OF obj rid False] assms have
      "st' = \<lparr>files = AList.update (rid @ ''.json'') (JObj obj) (files st),
                id_remap = id_remap st,
                written_ids = written_ids st @ [rid],
                reserved_ids = finsert rid (reserved_ids st)\<rparr>"
      by (auto split: option.splits)
    moreover have "map_of obj ''id'' = Some (JStr rid)"
      using rid(1) by (rule get_or_JStr)
    ultimately show ?thesis
      using False by (intro exI [of _ rid]) (auto simp: collides_def)
  qed
qed

lemma run_inv_initial: "run_inv (resolutions s) (initial_state s)"
  by (simp add: run_inv_def initial_state_def)

lemma run_inv_step:
  assumes inv: "run_inv d0 st" and step: "process_line L ln st = Inr st'"
  shows "run_inv d0 st'"
proof -
  from process_line_Inr [OF step] obtain wid obj where
    f: "files st' = AList.update (wid @ ''.json'') (JObj obj) (files st)"
    and o: "map_of obj ''id'' = Some (JStr wid)"
    and w: "written_ids st' = written_ids st @ [wid]"
    and r: "reserved_ids st' = finsert wid (reserved_ids st)"
    and ne: "\<not> path_exists (wid @ ''.json'') (files st)"
    and nr: "wid |\<notin>| reserved_ids st"
    by blast
  from inv have i1: "fset (reserved_ids st) = set (written_ids st)"
    and i2: "distinct (written_ids st)"
    and i3: "\<And>rid. rid \<in> set (written_ids st) \<Longrightarrow>
          map_of d0 (rid @ ''.json'') = None
          \<and> (\<exists>obj. map_of (files st) (rid @ ''.json'') = Some (JObj obj)
                \<and> map_of obj ''id'' = Some (JStr rid))"
    and i4: "\<And>name. name \<notin> (\<lambda>rid. rid @ ''.json'') ` set (written_ids st) \<Longrightarrow>
          map_of (files st) name = map_of d0 name"
    by (auto simp: run_inv_def)
  have fresh: "wid \<notin> set (written_ids st)"
    using nr i1 by auto
  then have nm: "wid @ ''.json'' \<notin> (\<lambda>rid. rid @ ''.json'') ` set (written_ids st)"
    by auto
  have lk: "map_of (files st') name
      = (if name = wid @ ''.json'' then Some (JObj obj) else map_of (files st) name)" for name
    by (simp add: f update_conv')
  have none: "map_of d0 (wid @ ''.json'') = None"
    using i4 [OF nm] ne by (simp add: path_exists_def)
  have 1: "fset (reserved_ids st') = set (written_ids st')"
    by (simp add: r w i1)
  have 2: "distinct (written_ids st')"
    by (simp add: w i2 fresh)
  have 3: "map_of d0 (rid @ ''.json'') = None
      \<and> (\<exists>obj. map_of (files st') (rid @ ''.json'') = Some (JObj obj)
            \<and> map_of obj ''id'' = Some (JStr rid))"
    if "rid \<in> set (written_ids st')" for rid
  proof (cases "rid = wid")
    case True
    then show ?thesis using none o by (simp add: lk)
  next
    case False
    with that have "rid \<in> set (written_ids st)" by (simp add: w)
    from i3 [OF this] False show ?thesis by (simp add: lk)
  qed
  have 4: "map_of (files st') name = map_of d0 name"
    if "name \<notin> (\<lambda>rid. rid @ ''.json'') ` set (written_ids st')" for name
  proof -
    from that have a: "name \<noteq> wid @ ''.json''"
      and b: "name \<notin> (\<lambda>rid. rid @ ''.json'') ` set (written_ids st)"
      by (auto simp: w)
    from a i4 [OF b] show ?thesis by (simp add: lk)
  qed
  show ?thesis
    unfolding run_inv_def using 1 2 3 4 by blast
qed

lemma run_inv_loop:
  assumes "run_inv d0 st" and "write_resolutions L lns st = (err, st')"
  shows "run_inv d0 st'"
  using assms
proof (induction lns arbitrary: st)
  case Nil
  then show ?case by simp
next
  case (Cons ln lns)
  show ?case
  proof (cases "process_line L ln st")
    case (Inl e)
    with Cons.prems show ?thesis by simp
  next
    case (Inr st1)
    with Cons.prems have "write_resolutions L lns st1 = (err, st')" by simp
    moreover have "run_inv d0 st1" using Cons.prems(1) Inr by (rule run_inv_step)
    ultimately show ?thesis by (rule Cons.IH [rotated])
  qed
qed

lemma write_resolutions_append:
  "write_resolutions L (pre @ post) st =
     (case write_resolutions L pre st of
        (None, st1) \<Rightarrow> write_resolutions L post st1
      | (Some e, st1) \<Rightarrow> (Some e, st1))"
  by (induction pre arbitrary: st) (auto split: sum.splits)

lemma write_resolutions_length:
  "write_resolutions L lns st = (None, st') \<Longrightarrow>
     length (written_ids st') = length (written_ids st) + length lns"
proof (induction lns arbitrary: st)
  case Nil
  then show ?case by simp
next
  case (Cons ln lns)
  then obtain st1 where s: "process_line L ln st = Inr st1" "write_resolutions L lns st1 = (None, st')"
    by (cases "process_line L ln st") auto
  from process_line_Inr [OF s(1)] have "length (written_ids st1) = Suc (length (written_ids st))"
    by auto
  with Cons.IH [OF s(2)] show ?case by simp
qed

section \<open>The whole call\<close>

text \<open>The steps of a call that succeeds.\<close>

lemma parse_success:
  assumes "parse_model_output_to_context L out_text s = (Inr idx, s')"
  shows "\<exists>incoming st incoming'.
     reply_index L out_text = Some incoming
     \<and> write_resolutions L (reply_lines out_text) (initial_state s) = (None, st)
     \<and> reconcile_directory (id_remap st) (written_ids st) incoming = Inr incoming'
     \<and> (case read_existing_index s of
           Some merged \<Rightarrow> if truthy (JObj merged) then merge_index L merged incoming' else Inr incoming'
         | None \<Rightarrow> Inr incoming') = Inr idx
     \<and> s' = s\<lparr>resolutions := files st, index := Stored (JObj idx)\<rparr>"
proof -
  from assms obtain index_text ndjson where
    b: "file_block_search out_text = Some (index_text, ndjson)"
    by (cases "file_block_search out_text") (auto simp: parse_model_output_to_context_def)
  from assms b obtain raw where raw: "json_loads L (strip index_text) = Some raw"
    by (cases "json_loads L (strip index_text)") (auto simp: parse_model_output_to_context_def)
  obtain err st where w: "write_resolutions L (nonblank_lines (strip ndjson)) (initial_state s) = (err, st)"
    by (cases "write_resolutions L (nonblank_lines (strip ndjson)) (initial_state s)")
  from assms have err: "err = None"
    by (cases err) (simp_all add: parse_model_output_to_context_def b raw w [unfolded initial_state_def] Let_def)
  from assms obtain incoming' where
    r: "reconcile_directory (id_remap st) (written_ids st) (normalize_index raw) = Inr incoming'"
    by (cases "reconcile_directory (id_remap st) (written_ids st) (normalize_index raw)")
      (simp_all add: parse_model_output_to_context_def b raw w [unfolded initial_state_def] Let_def err)
  let ?m = "case read_existing_index s of
           Some merged \<Rightarrow> if truthy (JObj merged) then merge_index L merged incoming' else Inr incoming'
         | None \<Rightarrow> Inr incoming'"
  from assms have "?m = Inr idx \<and> s' = s\<lparr>resolutions := files st, index := Stored (JObj idx)\<rparr>"
    by (cases ?m)
      (simp_all add: parse_model_output_to_context_def b raw w [unfolded initial_state_def] Let_def err r)
  then show ?thesis
    using b raw w err r by (simp add: reply_index_def reply_lines_def)
qed

lemma parse_loop_error:
  assumes "reply_index L out_text = Some incoming"
    and "write_resolutions L (reply_lines out_text) (initial_state s) = (Some e, st)"
  shows "parse_model_output_to_context L out_text s = (Inl e, s\<lparr>resolutions := files st\<rparr>)"
proof -
  from assms(1) obtain index_text ndjson raw where
    b: "file_block_search out_text = Some (index_text, ndjson)"
    and raw: "json_loads L (strip index_text) = Some raw"
    by (auto simp: reply_index_def split: option.splits)
  from assms(2) b have "write_resolutions L (nonblank_lines (strip ndjson)) (initial_state s) = (Some e, st)"
    by (simp add: reply_lines_def)
  then show ?thesis
    by (simp add: parse_model_output_to_context_def b raw initial_state_def Let_def)
qed

lemma reply_index_normalized: "reply_index L out_text = Some incoming \<Longrightarrow> is_normalized incoming"
  by (auto simp: reply_index_def is_normalized_normalize_index split: option.splits)

lemma read_existing_index_normalized:
  "read_existing_index s = Some merged \<Longrightarrow> is_normalized merged \<and> truthy (JObj merged)"
proof -
  assume "read_existing_index s = Some merged"
  then obtain v where "merged = normalize_index v"
    by (auto simp: read_existing_index_def split: index_file.splits)
  then have n: "is_normalized merged" by (simp add: is_normalized_normalize_index)
  then have "map_of merged ''project'' \<noteq> None"
    by (simp add: is_normalized_def schema_keys_def)
  then have "merged \<noteq> []" by auto
  with n show ?thesis by simp
qed

lemma entry_id_remap_item:
  "entry_id (remap_item remap it) =
     (case entry_id it of
        Some old \<Rightarrow> (case remap old of Some new \<Rightarrow> Some new | None \<Rightarrow> Some old)
      | None \<Rightarrow> None)"
  by (auto simp: entry_id_def remap_item_def map_of_set_item split: json.splits option.splits)

lemma remap_item_unchanged:
  "(\<forall>old. entry_id it = Some old \<longrightarrow> remap old = None) \<Longrightarrow> remap_item remap it = it"
  by (auto simp: entry_id_def remap_item_def split: json.splits option.splits)

lemma entry_id_minimal_entry: "entry_id (minimal_entry rid) = Some rid"
  by (simp add: entry_id_def minimal_entry_def)

text \<open>The directory of the incoming index after the remap and the filling in.\<close>

lemma reconcile_directory_normalized:
  assumes "is_normalized incoming" and "directory_of incoming = Some its"
  shows "\<exists>incoming'. reconcile_directory remap written incoming = Inr incoming'
     \<and> directory_of incoming'
         = Some (if its = [] \<and> written \<noteq> [] then map minimal_entry written
                 else map (remap_item remap) its)
     \<and> (\<forall>k. k \<noteq> ''detail_index'' \<longrightarrow> map_of incoming' k = map_of incoming k)
     \<and> is_normalized incoming'"
proof -
  from directory_ofD [OF assms(2)] obtain di where
    di: "map_of incoming ''detail_index'' = Some (JObj di)" "map_of di ''resolutions'' = Some (JList its)"
    by blast
  let ?remapped = "set_item ''detail_index''
      (JObj (set_item ''resolutions'' (JList (map (remap_item remap) its)) di)) incoming"
  let ?items = "if its = [] \<and> written \<noteq> [] then map minimal_entry written
                 else map (remap_item remap) its"
  let ?res = "set_item ''detail_index'' (JObj (set_item ''resolutions'' (JList ?items) di)) incoming"
  have items: "attr_get (get_or incoming ''detail_index'' (JObj [])) ''resolutions'' (JList [])
      = Inr (JList its)"
    by (simp add: attr_get_def get_or_Some [OF di(1)] get_or_Some [OF di(2)])
  have mr: "map_resolutions (remap_item remap) incoming = ?remapped"
    by (simp add: map_resolutions_def di)
  have sr: "set_resolutions xs
        (set_item ''detail_index'' (JObj (set_item ''resolutions'' (JList ys) di)) incoming) =
      Inr (set_item ''detail_index'' (JObj (set_item ''resolutions'' (JList xs) di)) incoming)"
    for xs ys
    by (simp add: set_resolutions_def map_of_set_item set_item_twice)
  have res: "reconcile_directory remap written incoming = Inr ?res"
  proof (cases "its = [] \<and> written \<noteq> []")
    case True
    then show ?thesis
      by (simp add: reconcile_directory_def items mr Let_def sr)
  next
    case False
    then show ?thesis
      by (auto simp: reconcile_directory_def items mr Let_def)
  qed
  have d: "directory_of ?res = Some ?items"
    by (simp add: directory_of_def map_of_set_item)
  have other: "map_of ?res k = map_of incoming k" if "k \<noteq> ''detail_index''" for k
    using that by (simp add: map_of_set_item)
  have "map_of ?res k \<noteq> None" if "k \<in> set schema_keys" for k
    using that assms(1) by (cases "k = ''detail_index''") (auto simp: map_of_set_item is_normalized_def)
  with d have "is_normalized ?res" by (simp add: is_normalized_def)
  with res d other show ?thesis by blast
qed

lemma spec_id_path_ok:
  assumes "spec_id_shape rid" and "length rid \<le> 250"
  shows "path_ok (rid @ ''.json'')"
proof -
  have l4: "length ''res-'' = 4" by simp
  from assms(1) have "startswith rid ''res-''"
    unfolding spec_id_shape_def by blast
  then have p: "take 4 rid = ''res-''"
    unfolding startswith_def l4 .
  from assms(1) have d: "set (drop 4 rid) \<subseteq> set ''0123456789''"
    unfolding spec_id_shape_def by blast
  define ds where "ds = drop 4 rid"
  have rid: "''res-'' @ ds = rid"
    using append_take_drop_id [of 4 rid] unfolding p ds_def .
  have d': "set ds \<subseteq> set ''0123456789''" using d by (simp only: ds_def)
  have "CHR ''/'' \<notin> set ''0123456789''" and "CHR 0x00 \<notin> set ''0123456789''"
    by simp_all
  with d' have c: "CHR ''/'' \<notin> set ds" "CHR 0x00 \<notin> set ds"
    by blast+
  have chars: "CHR ''/'' \<notin> set ((''res-'' @ ds) @ ''.json'')" "CHR 0x00 \<notin> set ((''res-'' @ ds) @ ''.json'')"
    using c by simp_all
  have "utf8_length ds = length ds"
    using d' by (rule utf8_length_digits)
  moreover have "utf8_length ''res-'' = 4" and "utf8_length ''.json'' = 5"
    by (simp_all add: utf8_length_def)
  moreover have "length (''res-'' @ ds) \<le> 250"
    using assms(2) by (simp only: rid)
  then have "length ds \<le> 246" by simp
  ultimately have "utf8_length ((''res-'' @ ds) @ ''.json'') \<le> name_max"
    by (simp only: utf8_length_append name_max_def)
  with chars have "path_ok ((''res-'' @ ds) @ ''.json'')"
    by (simp add: path_ok_def open_error_def)
  then show ?thesis by (simp only: rid)
qed

text \<open>
  C6, as amended. For a line of the NDJSON block that decodes to an object, the line
  raises the error of an illegal id if and only if its \<^verbatim>\<open>id\<close> is absent, is not a
  string, or does not start with \<^verbatim>\<open>res-\<close>; what follows the prefix is not looked at. A
  line whose id starts with \<^verbatim>\<open>res-\<close> and names a file that \<^verbatim>\<open>open\<close> accepts (no NUL,
  no path separator, at most 255 bytes with the suffix) is accepted, in a store of fewer
  than \<open>10\<^sup>2\<^sup>4\<^sup>6\<close> files and reserved ids, and its record is persisted in the file of the
  id it is written under, which is the declared id unless that collides. A line whose id
  starts with \<^verbatim>\<open>res-\<close>, does not collide and names a file that \<^verbatim>\<open>open\<close> refuses raises
  the error of \<^verbatim>\<open>open\<close>. An id of the shape \<^verbatim>\<open>res-NNN\<close> of at most 250 characters
  names a file that \<^verbatim>\<open>open\<close> accepts. The lines are processed in order and the first
  line that raises ends the loop and the call with its error.
\<close>

theorem ndjson_id_validation:
  assumes "json_loads L ln = Some (JObj obj)"
  shows "((\<exists>v. process_line L ln st = Inl (InvalidId v))
           \<longleftrightarrow> \<not> (\<exists>rid. get_or obj ''id'' JNull = JStr rid \<and> startswith rid ''res-''))
     \<and> (\<forall>rid. get_or obj ''id'' JNull = JStr rid \<and> startswith rid ''res-'' \<and> path_ok (rid @ ''.json'')
              \<and> Suc (length (files st) + fcard (reserved_ids st)) < 10 ^ 246
           \<longrightarrow> (\<exists>st' wid. process_line L ln st = Inr st'
                  \<and> written_ids st' = written_ids st @ [wid]
                  \<and> map_of (files st') (wid @ ''.json'') = Some (JObj (set_item ''id'' (JStr wid) obj))
                  \<and> (\<not> collides rid st \<longrightarrow> wid = rid)))
     \<and> (\<forall>rid e. get_or obj ''id'' JNull = JStr rid \<and> startswith rid ''res-'' \<and> \<not> collides rid st
              \<and> open_error (rid @ ''.json'') = Some e
           \<longrightarrow> process_line L ln st = Inl e)
     \<and> (\<forall>rid. spec_id_shape rid \<and> length rid \<le> 250 \<longrightarrow>
           startswith rid ''res-'' \<and> path_ok (rid @ ''.json''))
     \<and> (\<forall>e pre st0 post. write_resolutions L pre st0 = (None, st) \<and> process_line L ln st = Inl e
           \<longrightarrow> write_resolutions L (pre @ ln # post) st0 = (Some e, st))
     \<and> (\<forall>e out_text s incoming pre post st0.
           reply_index L out_text = Some incoming \<and> reply_lines out_text = pre @ ln # post
           \<and> write_resolutions L pre (initial_state s) = (None, st) \<and> process_line L ln st = Inl e
           \<longrightarrow> parse_model_output_to_context L out_text s = (Inl e, s\<lparr>resolutions := files st\<rparr>))"
proof (intro conjI allI impI)
  show "(\<exists>v. process_line L ln st = Inl (InvalidId v))
      \<longleftrightarrow> \<not> (\<exists>rid. get_or obj ''id'' JNull = JStr rid \<and> startswith rid ''res-'')"
    using process_line_invalid [OF assms, of st] process_line_valid_not_InvalidId [OF assms, of _ st]
    by blast
next
  fix rid
  assume a: "get_or obj ''id'' JNull = JStr rid \<and> startswith rid ''res-'' \<and> path_ok (rid @ ''.json'')
      \<and> Suc (length (files st) + fcard (reserved_ids st)) < 10 ^ 246"
  then have rid: "get_or obj ''id'' JNull = JStr rid" "startswith rid ''res-''"
    and ok: "path_ok (rid @ ''.json'')"
    and small: "Suc (length (files st) + fcard (reserved_ids st)) < 10 ^ 246"
    by simp_all
  show "\<exists>st' wid. process_line L ln st = Inr st'
      \<and> written_ids st' = written_ids st @ [wid]
      \<and> map_of (files st') (wid @ ''.json'') = Some (JObj (set_item ''id'' (JStr wid) obj))
      \<and> (\<not> collides rid st \<longrightarrow> wid = rid)"
  proof (cases "collides rid st")
    case True
    from process_line_collision [OF assms rid True] obtain n where
      p: "process_line L ln st =
        (if path_ok (res_id n @ ''.json'')
         then Inr \<lparr>files = AList.update (res_id n @ ''.json'')
                  (JObj (set_item ''id'' (JStr (res_id n)) obj)) (files st),
                id_remap = (id_remap st)(rid \<mapsto> res_id n),
                written_ids = written_ids st @ [res_id n],
                reserved_ids = finsert (res_id n) (reserved_ids st)\<rparr>
         else Inl OSError)"
      and b: "n \<le> Suc (length (files st) + fcard (reserved_ids st))"
      by blast
    from b small have "n < 10 ^ 246" by (rule le_less_trans)
    then have "path_ok (res_id n @ ''.json'')" by (rule path_ok_res_id)
    with p True show ?thesis by (simp add: update_conv')
  next
    case False
    have "set_item ''id'' (JStr rid) obj = obj"
      using get_or_JStr [OF rid(1)] by (rule set_item_triv)
    with process_line_fresh [OF assms rid False] ok False show ?thesis
      by (simp add: update_conv' path_ok_def)
  qed
next
  fix rid e
  assume "get_or obj ''id'' JNull = JStr rid \<and> startswith rid ''res-'' \<and> \<not> collides rid st
      \<and> open_error (rid @ ''.json'') = Some e"
  then have rid: "get_or obj ''id'' JNull = JStr rid" "startswith rid ''res-''"
    and nc: "\<not> collides rid st" and oe: "open_error (rid @ ''.json'') = Some e"
    by simp_all
  from process_line_fresh [OF assms rid nc] oe show "process_line L ln st = Inl e"
    by simp
next
  fix rid
  assume "spec_id_shape rid \<and> length rid \<le> 250"
  then show "startswith rid ''res-''" by (simp add: spec_id_shape_def)
next
  fix rid
  assume "spec_id_shape rid \<and> length rid \<le> 250"
  then show "path_ok (rid @ ''.json'')" by (auto intro: spec_id_path_ok)
next
  fix e pre st0 post
  assume "write_resolutions L pre st0 = (None, st) \<and> process_line L ln st = Inl e"
  then show "write_resolutions L (pre @ ln # post) st0 = (Some e, st)"
    by (simp add: write_resolutions_append)
next
  fix e out_text s incoming pre post st0
  assume a: "reply_index L out_text = Some incoming \<and> reply_lines out_text = pre @ ln # post
      \<and> write_resolutions L pre (initial_state s) = (None, st) \<and> process_line L ln st = Inl e"
  then have "write_resolutions L (reply_lines out_text) (initial_state s) = (Some e, st)"
    by (simp add: write_resolutions_append)
  with a show "parse_model_output_to_context L out_text s = (Inl e, s\<lparr>resolutions := files st\<rparr>)"
    using parse_loop_error by blast
qed

theorem ndjson_id_validation_witness:
  "json_loads (example_lib [JObj [(''id'', JStr ''res-001'')], JObj [(''id'', JInt 7)], long_record])
       (dumps_sorted (JObj [(''id'', JStr ''res-001'')]))
     = Some (JObj [(''id'', JStr ''res-001'')])
   \<and> get_or [(''id'', JStr ''res-001'')] ''id'' JNull = JStr ''res-001''
   \<and> startswith ''res-001'' ''res-'' \<and> path_ok (''res-001'' @ ''.json'')
   \<and> (\<exists>st' wid. process_line
          (example_lib [JObj [(''id'', JStr ''res-001'')], JObj [(''id'', JInt 7)], long_record])
          (dumps_sorted (JObj [(''id'', JStr ''res-001'')])) (initial_state empty_store) = Inr st'
        \<and> written_ids st' = written_ids (initial_state empty_store) @ [wid]
        \<and> map_of (files st') (wid @ ''.json'')
            = Some (JObj (set_item ''id'' (JStr wid) [(''id'', JStr ''res-001'')])))
   \<and> json_loads (example_lib [JObj [(''id'', JStr ''res-001'')], JObj [(''id'', JInt 7)], long_record])
       (dumps_sorted (JObj [(''id'', JInt 7)]))
     = Some (JObj [(''id'', JInt 7)])
   \<and> (\<exists>v. process_line
          (example_lib [JObj [(''id'', JStr ''res-001'')], JObj [(''id'', JInt 7)], long_record])
          (dumps_sorted (JObj [(''id'', JInt 7)])) (initial_state empty_store) = Inl (InvalidId v))
   \<and> json_loads (example_lib [JObj [(''id'', JStr ''res-001'')], JObj [(''id'', JInt 7)], long_record])
       (dumps_sorted long_record)
     = Some (JObj [(''id'', JStr long_id)])
   \<and> spec_id_shape long_id \<and> length long_id = 251
   \<and> open_error (long_id @ ''.json'') = Some OSError
   \<and> process_line
          (example_lib [JObj [(''id'', JStr ''res-001'')], JObj [(''id'', JInt 7)], long_record])
          (dumps_sorted long_record) (initial_state empty_store) = Inl OSError"
proof -
  let ?L = "example_lib [JObj [(''id'', JStr ''res-001'')], JObj [(''id'', JInt 7)], long_record]"
  let ?st = "initial_state empty_store"
  have l1: "json_loads ?L (dumps_sorted (JObj [(''id'', JStr ''res-001'')]))
      = Some (JObj [(''id'', JStr ''res-001'')])"
    by code_simp
  have l2: "json_loads ?L (dumps_sorted (JObj [(''id'', JInt 7)])) = Some (JObj [(''id'', JInt 7)])"
    by code_simp
  have l3: "json_loads ?L (dumps_sorted long_record) = Some (JObj [(''id'', JStr long_id)])"
    by code_simp
  have g: "get_or [(''id'', JStr ''res-001'')] ''id'' JNull = JStr ''res-001''" by code_simp
  have sw: "startswith ''res-001'' ''res-''" by code_simp
  have po: "path_ok (''res-001'' @ ''.json'')" by code_simp
  have small: "Suc (length (files ?st) + fcard (reserved_ids ?st)) < 10 ^ 246"
    by (simp add: initial_state_def empty_store_def fcard_fempty)
  from ndjson_id_validation [OF l1, of ?st, THEN conjunct2, THEN conjunct1, rule_format, of "''res-001''"]
    g sw po small
  have 1: "\<exists>st' wid. process_line ?L (dumps_sorted (JObj [(''id'', JStr ''res-001'')])) ?st = Inr st'
        \<and> written_ids st' = written_ids ?st @ [wid]
        \<and> map_of (files st') (wid @ ''.json'')
            = Some (JObj (set_item ''id'' (JStr wid) [(''id'', JStr ''res-001'')]))"
    by blast
  have "\<not> (\<exists>rid. get_or [(''id'', JInt 7)] ''id'' JNull = JStr rid \<and> startswith rid ''res-'')"
    by (simp add: get_or_def)
  with ndjson_id_validation [OF l2, of ?st, THEN conjunct1]
  have 2: "\<exists>v. process_line ?L (dumps_sorted (JObj [(''id'', JInt 7)])) ?st = Inl (InvalidId v)"
    by blast
  have g3: "get_or [(''id'', JStr long_id)] ''id'' JNull = JStr long_id"
    by (simp add: get_or_def)
  have sh: "spec_id_shape long_id" by code_simp
  have len: "length long_id = 251" by code_simp
  have sw3: "startswith long_id ''res-''" by code_simp
  have nc: "\<not> collides long_id ?st" by code_simp
  have oe: "open_error (long_id @ ''.json'') = Some OSError" by code_simp
  from ndjson_id_validation [OF l3, of ?st, THEN conjunct2, THEN conjunct2, THEN conjunct1,
      rule_format, of long_id OSError] g3 sw3 nc oe
  have 3: "process_line ?L (dumps_sorted long_record) ?st = Inl OSError"
    by blast
  show ?thesis
    by (intro conjI l1 g sw po 1 l2 2 l3 sh len oe 3)
qed

text \<open>
  The id \<^verbatim>\<open>res-abc\<close> is not of the shape \<^verbatim>\<open>res-NNN\<close>, and the run accepts it: the
  call succeeds and the record is in the file \<^verbatim>\<open>res-abc.json\<close>.
\<close>

theorem non_numeric_id_accepted:
  "\<not> spec_id_shape ''res-abc''
   \<and> \<not> isl (fst (parse_model_output_to_context
          (example_lib [JObj [], JObj [(''id'', JStr ''res-abc'')]])
          (reply_text (JObj []) [JObj [(''id'', JStr ''res-abc'')]]) empty_store))
   \<and> resolutions (snd (parse_model_output_to_context
          (example_lib [JObj [], JObj [(''id'', JStr ''res-abc'')]])
          (reply_text (JObj []) [JObj [(''id'', JStr ''res-abc'')]]) empty_store))
       = [(''res-abc.json'', JObj [(''id'', JStr ''res-abc'')])]"
  by code_simp

text \<open>
  C2. Collision remap, at a reply with two records that declare the same id. The store
  holds the file \<^verbatim>\<open>res-001.json\<close> and an index that lists \<^verbatim>\<open>res-001\<close>. The reply has
  the records A and B, which both declare \<^verbatim>\<open>res-001\<close>, and one directory entry for each,
  bearing \<^verbatim>\<open>res-001\<close>. Both records collide: A is written under \<^verbatim>\<open>res-002\<close> and B
  under \<^verbatim>\<open>res-003\<close>, and the file \<^verbatim>\<open>res-001.json\<close> is left as it was. The remap is
  keyed by the declared id, so the entry for B replaces the one for A and the remap holds
  \<^verbatim>\<open>res-003\<close> only. In the merged index the entry of A carries \<^verbatim>\<open>res-003\<close>, the id of
  the file that holds B, and no entry carries \<^verbatim>\<open>res-002\<close>, the new id of A.
\<close>

theorem repeated_id_loses_remap:
  "written_ids (snd (write_resolutions (example_lib [twice_listed, record_a, record_b])
       (reply_lines (reply_text twice_listed [record_a, record_b])) (initial_state archive_store)))
     = [''res-002'', ''res-003'']
   \<and> id_remap (snd (write_resolutions (example_lib [twice_listed, record_a, record_b])
       (reply_lines (reply_text twice_listed [record_a, record_b])) (initial_state archive_store)))
       ''res-001'' = Some ''res-003''
   \<and> resolutions (snd (parse_model_output_to_context (example_lib [twice_listed, record_a, record_b])
       (reply_text twice_listed [record_a, record_b]) archive_store))
     = [(''res-001.json'', JObj [(''id'', JStr ''res-001''), (''problem'', JStr ''old'')]),
        (''res-002.json'', JObj [(''id'', JStr ''res-002''), (''problem'', JStr ''A'')]),
        (''res-003.json'', JObj [(''id'', JStr ''res-003''), (''problem'', JStr ''B'')])]
   \<and> result_directory (parse_model_output_to_context (example_lib [twice_listed, record_a, record_b])
       (reply_text twice_listed [record_a, record_b]) archive_store)
     = Some [JObj [(''id'', JStr ''res-001''), (''summary'', JStr ''old'')],
             JObj [(''id'', JStr ''res-003''), (''summary'', JStr ''A'')]]"
  by code_simp

section \<open>The remap and the directory\<close>

lemma entry_id_final_id: "entry_id (remap_item remap it) = map_option (final_id remap) (entry_id it)"
  by (simp add: entry_id_remap_item final_id_def split: option.splits)

lemma declared_ids_append: "declared_ids L (a @ b) = declared_ids L a @ declared_ids L b"
  by (simp add: declared_ids_def)

lemma zip_snoc:
  "length xs = length ys \<Longrightarrow> set (zip (xs @ [a]) (ys @ [b])) = insert (a, b) (set (zip xs ys))"
  by auto

lemma zip_left_unique:
  assumes "distinct ys" and "(a, y) \<in> set (zip xs ys)" and "(b, y) \<in> set (zip xs ys)"
  shows "a = b"
proof -
  from assms(2) obtain i where i: "i < length xs" "i < length ys" "xs ! i = a" "ys ! i = y"
    by (auto simp: in_set_zip)
  from assms(3) obtain j where j: "j < length xs" "j < length ys" "xs ! j = b" "ys ! j = y"
    by (auto simp: in_set_zip)
  have "i = j"
    using nth_eq_iff_index_eq [OF assms(1) i(2) j(2)] i(4) j(4) by simp
  with i(3) j(3) show ?thesis by simp
qed

lemma zip_right_unique:
  assumes "distinct xs" and "(x, a) \<in> set (zip xs ys)" and "(x, b) \<in> set (zip xs ys)"
  shows "a = b"
proof -
  from assms(2) obtain i where i: "i < length xs" "i < length ys" "xs ! i = x" "ys ! i = a"
    by (auto simp: in_set_zip)
  from assms(3) obtain j where j: "j < length xs" "j < length ys" "xs ! j = x" "ys ! j = b"
    by (auto simp: in_set_zip)
  have "i = j"
    using nth_eq_iff_index_eq [OF assms(1) i(1) j(1)] i(3) j(3) by simp
  with i(4) j(4) show ?thesis by simp
qed

lemma remap_inv_initial: "remap_inv [] (initial_state s)"
  by (simp add: remap_inv_def initial_state_def)

text \<open>What a line that succeeds does to the remap.\<close>

lemma process_line_remap:
  assumes "process_line L ln st = Inr st'"
  shows "\<exists>rid wid. declared_id L ln = Some rid
     \<and> written_ids st' = written_ids st @ [wid]
     \<and> (wid = rid \<and> id_remap st' = id_remap st
        \<or> wid \<noteq> rid \<and> id_remap st' = (id_remap st)(rid \<mapsto> wid))"
proof -
  from assms obtain obj where obj: "json_loads L ln = Some (JObj obj)"
    by (auto simp: process_line_def split: option.splits json.splits)
  have "\<exists>rid. get_or obj ''id'' JNull = JStr rid \<and> startswith rid ''res-''"
    using process_line_invalid [OF obj, of st] assms by auto
  then obtain rid where rid: "get_or obj ''id'' JNull = JStr rid" "startswith rid ''res-''"
    by blast
  have d: "declared_id L ln = Some rid"
    by (simp add: declared_id_def obj rid)
  show ?thesis
  proof (cases "collides rid st")
    case True
    from process_line_collision [OF obj rid True] assms obtain n where
      n: "st' = \<lparr>files = AList.update (res_id n @ ''.json'')
                (JObj (set_item ''id'' (JStr (res_id n)) obj)) (files st),
             id_remap = (id_remap st)(rid \<mapsto> res_id n),
             written_ids = written_ids st @ [res_id n],
             reserved_ids = finsert (res_id n) (reserved_ids st)\<rparr>"
        "\<not> path_exists (res_id n @ ''.json'') (files st)" "res_id n |\<notin>| reserved_ids st"
      by (auto split: if_splits)
    from True n(2,3) have "res_id n \<noteq> rid"
      by (auto simp: collides_def)
    with d n(1) show ?thesis
      by (intro exI [of _ rid] exI [of _ "res_id n"]) simp
  next
    case False
    from process_line_fresh [OF obj rid False] assms have
      "st' = \<lparr>files = AList.update (rid @ ''.json'') (JObj obj) (files st),
                id_remap = id_remap st,
                written_ids = written_ids st @ [rid],
                reserved_ids = finsert rid (reserved_ids st)\<rparr>"
      by (auto split: option.splits)
    with d show ?thesis
      by (intro exI [of _ rid] exI [of _ rid]) simp
  qed
qed

lemma remap_inv_step:
  assumes inv: "remap_inv decl st" and step: "process_line L ln st = Inr st'"
  shows "\<exists>rid. declared_id L ln = Some rid \<and> remap_inv (decl @ [rid]) st'"
proof -
  from process_line_remap [OF step] obtain rid wid where
    d: "declared_id L ln = Some rid"
    and w: "written_ids st' = written_ids st @ [wid]"
    and r: "wid = rid \<and> id_remap st' = id_remap st
        \<or> wid \<noteq> rid \<and> id_remap st' = (id_remap st)(rid \<mapsto> wid)"
    by blast
  from inv have len: "length decl = length (written_ids st)"
    and dom: "\<And>e w. id_remap st e = Some w \<Longrightarrow> e \<in> set decl \<and> w \<noteq> e"
    and fin: "\<And>e. e \<in> set decl \<Longrightarrow> (e, final_id (id_remap st) e) \<in> set (zip decl (written_ids st))"
    by (auto simp: remap_inv_def)
  have z: "set (zip (decl @ [rid]) (written_ids st')) = insert (rid, wid) (set (zip decl (written_ids st)))"
    unfolding w using len by (rule zip_snoc)
  have 1: "length (decl @ [rid]) = length (written_ids st')"
    by (simp add: w len)
  have 2: "e \<in> set (decl @ [rid]) \<and> v \<noteq> e" if "id_remap st' e = Some v" for e v
  proof (cases "id_remap st' = id_remap st")
    case True
    with that have "id_remap st e = Some v" by simp
    from dom [OF this] show ?thesis by simp
  next
    case False
    with r have u: "wid \<noteq> rid" "id_remap st' = (id_remap st)(rid \<mapsto> wid)" by auto
    show ?thesis
    proof (cases "e = rid")
      case True
      with that u show ?thesis by simp
    next
      case False
      with that u have "id_remap st e = Some v" by simp
      from dom [OF this] show ?thesis by simp
    qed
  qed
  have 3: "(e, final_id (id_remap st') e) \<in> set (zip (decl @ [rid]) (written_ids st'))"
    if "e \<in> set (decl @ [rid])" for e
  proof (cases "e = rid")
    case True
    show ?thesis
    proof (cases "id_remap st' rid")
      case None
      with r have "wid = rid" by auto
      with None True show ?thesis by (simp add: z final_id_def)
    next
      case (Some v)
      show ?thesis
      proof (cases "wid = rid")
        case True
        with r have same: "id_remap st' = id_remap st" by auto
        with Some have "id_remap st rid = Some v" by simp
        from dom [OF this] have "rid \<in> set decl" by simp
        from fin [OF this] show ?thesis using \<open>e = rid\<close> by (simp add: z same)
      next
        case False
        with r have "id_remap st' = (id_remap st)(rid \<mapsto> wid)" by auto
        then show ?thesis using \<open>e = rid\<close> by (simp add: z final_id_def)
      qed
    qed
  next
    case False
    with that have e: "e \<in> set decl" by simp
    from False r have "final_id (id_remap st') e = final_id (id_remap st) e"
      by (auto simp: final_id_def)
    with fin [OF e] show ?thesis by (simp add: z)
  qed
  from 1 2 3 have "remap_inv (decl @ [rid]) st'"
    unfolding remap_inv_def by blast
  with d show ?thesis by blast
qed

lemma remap_inv_loop:
  assumes "remap_inv decl st" and "write_resolutions L lns st = (None, st')"
  shows "remap_inv (decl @ declared_ids L lns) st'"
  using assms
proof (induction lns arbitrary: st decl)
  case Nil
  then show ?case by (simp add: declared_ids_def)
next
  case (Cons ln lns)
  then obtain st1 where s: "process_line L ln st = Inr st1" "write_resolutions L lns st1 = (None, st')"
    by (cases "process_line L ln st") auto
  from remap_inv_step [OF Cons.prems(1) s(1)] obtain rid where
    rid: "declared_id L ln = Some rid" "remap_inv (decl @ [rid]) st1"
    by blast
  from Cons.IH [OF rid(2) s(2)] have "remap_inv ((decl @ [rid]) @ declared_ids L lns) st'" .
  moreover have "declared_ids L (ln # lns) = [rid] @ declared_ids L lns"
    by (simp add: declared_ids_def rid(1))
  ultimately show ?case by simp
qed

lemma remap_inv_written:
  assumes "remap_inv decl st" and "e \<in> set decl"
  shows "final_id (id_remap st) e \<in> set (written_ids st)"
proof -
  from assms have "(e, final_id (id_remap st) e) \<in> set (zip decl (written_ids st))"
    by (simp add: remap_inv_def)
  then show ?thesis by (rule set_zip_rightD)
qed

lemma remap_inv_inj:
  assumes "remap_inv decl st" and "distinct (written_ids st)"
  shows "inj_on (final_id (id_remap st)) (set decl)"
proof (rule inj_onI)
  fix a b
  assume a: "a \<in> set decl" and b: "b \<in> set decl"
    and eq: "final_id (id_remap st) a = final_id (id_remap st) b"
  from assms(1) a have "(a, final_id (id_remap st) a) \<in> set (zip decl (written_ids st))"
    by (simp add: remap_inv_def)
  moreover from assms(1) b eq have "(b, final_id (id_remap st) a) \<in> set (zip decl (written_ids st))"
    by (simp add: remap_inv_def)
  ultimately show "a = b" by (rule zip_left_unique [OF assms(2)])
qed

text \<open>
  When the records declare distinct ids, the remap holds exactly the records that were
  written under another id than the one they declared.
\<close>

lemma remap_inv_distinct:
  assumes inv: "remap_inv decl st" and d: "distinct decl" and i: "i < length decl"
  shows "id_remap st (decl ! i)
     = (if written_ids st ! i = decl ! i then None else Some (written_ids st ! i))"
proof -
  from inv have len: "length decl = length (written_ids st)"
    and dom: "\<And>e w. id_remap st e = Some w \<Longrightarrow> w \<noteq> e"
    by (auto simp: remap_inv_def)
  from i have e: "decl ! i \<in> set decl" by simp
  with inv have "(decl ! i, final_id (id_remap st) (decl ! i)) \<in> set (zip decl (written_ids st))"
    by (simp add: remap_inv_def)
  moreover from i len have "(decl ! i, written_ids st ! i) \<in> set (zip decl (written_ids st))"
    by (auto simp: in_set_zip)
  ultimately have f: "final_id (id_remap st) (decl ! i) = written_ids st ! i"
    by (rule zip_right_unique [OF d])
  show ?thesis
  proof (cases "id_remap st (decl ! i)")
    case None
    with f show ?thesis by (simp add: final_id_def)
  next
    case (Some w)
    with f dom [OF Some] show ?thesis by (simp add: final_id_def)
  qed
qed

text \<open>A file of the store is still there after the loop.\<close>

lemma run_inv_path_exists:
  assumes "run_inv d0 st" and "path_exists name d0"
  shows "path_exists name (files st)"
proof (cases "name \<in> (\<lambda>rid. rid @ ''.json'') ` set (written_ids st)")
  case True
  with assms(1) show ?thesis by (auto simp: run_inv_def path_exists_def)
next
  case False
  with assms(1) have "map_of (files st) name = map_of d0 name"
    by (simp add: run_inv_def)
  with assms(2) show ?thesis by (simp add: path_exists_def)
qed

lemma run_inv_written_exists:
  assumes "run_inv d0 st" and "rid \<in> set (written_ids st)"
  shows "path_exists (rid @ ''.json'') (files st)"
  using assms by (auto simp: run_inv_def path_exists_def)

lemma has_record_after:
  assumes "run_inv d0 st" and "has_record d0 it"
  shows "has_record (files st) it"
  using assms by (auto simp: has_record_def split: option.splits intro: run_inv_path_exists)

text \<open>
  The incoming directory after step 3, when every entry of the reply bears an id that a
  record declares: every entry bears the id of a file written in the run, and entries
  that bore distinct ids still do.
\<close>

lemma incoming_directory_recorded:
  assumes ri: "run_inv d0 st" and mi: "remap_inv decl st" and ed: "entries_declared decl its"
  shows "directory_recorded (incoming_directory (written_ids st) (id_remap st) its) (files st)"
proof (cases "its = [] \<and> written_ids st \<noteq> []")
  case True
  then have "incoming_directory (written_ids st) (id_remap st) its = map minimal_entry (written_ids st)"
    by (simp add: incoming_directory_def)
  then show ?thesis
    using run_inv_written_exists [OF ri]
    by (auto simp: directory_recorded_def has_record_def entry_id_minimal_entry)
next
  case False
  then have eq: "incoming_directory (written_ids st) (id_remap st) its = map (remap_item (id_remap st)) its"
    by (auto simp: incoming_directory_def)
  have "has_record (files st) (remap_item (id_remap st) it)" if "it \<in> set its" for it
  proof -
    from ed that obtain rid where rid: "rid \<in> set decl" "entry_id it = Some rid"
      by (auto simp: entries_declared_def)
    from remap_inv_written [OF mi rid(1)] have "final_id (id_remap st) rid \<in> set (written_ids st)" .
    from run_inv_written_exists [OF ri this] rid(2) show ?thesis
      by (simp add: has_record_def entry_id_final_id)
  qed
  then show ?thesis by (simp add: eq directory_recorded_def)
qed

lemma incoming_directory_distinct:
  assumes ri: "run_inv d0 st" and mi: "remap_inv decl st" and ed: "entries_declared decl its"
    and di: "distinct (map entry_id its)"
  shows "distinct (map entry_id (incoming_directory (written_ids st) (id_remap st) its))"
proof (cases "its = [] \<and> written_ids st \<noteq> []")
  case True
  then have eq: "incoming_directory (written_ids st) (id_remap st) its = map minimal_entry (written_ids st)"
    by (simp add: incoming_directory_def)
  have m: "map entry_id (map minimal_entry (written_ids st)) = map Some (written_ids st)"
    by (simp add: comp_def entry_id_minimal_entry)
  from ri have "distinct (written_ids st)" by (simp add: run_inv_def)
  then have "distinct (map Some (written_ids st))" by (simp add: distinct_map)
  then show ?thesis by (simp only: eq m)
next
  case False
  then have eq: "incoming_directory (written_ids st) (id_remap st) its = map (remap_item (id_remap st)) its"
    by (auto simp: incoming_directory_def)
  from ri have dw: "distinct (written_ids st)" by (simp add: run_inv_def)
  have ids: "set (map entry_id its) \<subseteq> Some ` set decl"
    using ed by (auto simp: entries_declared_def)
  have "inj_on (map_option (final_id (id_remap st))) (Some ` set decl)"
    using remap_inv_inj [OF mi dw] by (auto simp: inj_on_def)
  then have "inj_on (map_option (final_id (id_remap st))) (set (map entry_id its))"
    using ids by (rule inj_on_subset)
  with di have "distinct (map (map_option (final_id (id_remap st))) (map entry_id its))"
    by (simp only: distinct_map)
  moreover have "map entry_id (map (remap_item (id_remap st)) its)
      = map (map_option (final_id (id_remap st))) (map entry_id its)"
    by (simp add: comp_def entry_id_final_id)
  ultimately show ?thesis by (simp only: eq)
qed

text \<open>
  The directory of the index written is consistent with the store when the directory read
  from the store was recorded, the incoming one is, and, on a first run, the incoming
  one has no two entries with the same id.
\<close>

lemma final_directory_consistent:
  assumes ri: "run_inv (resolutions s) st"
    and prev: "directory_recorded (directory_entries (previous_directory s)) (resolutions s)"
    and inc: "directory_recorded items (files st)"
    and first: "read_existing_index s = None \<Longrightarrow> distinct (map entry_id items)"
  shows "directory_consistent (final_directory s items) (files st)"
proof (cases "read_existing_index s")
  case None
  with inc first show ?thesis
    by (simp add: final_directory_def directory_consistent_def)
next
  case (Some merged)
  let ?all = "directory_entries (previous_directory s @ items)"
  have fd: "final_directory s items = first_seen entry_id ?all"
    by (simp add: final_directory_def Some)
  have "has_record (files st) it" if "it \<in> set ?all" for it
  proof -
    from that have "it \<in> set (directory_entries (previous_directory s)) \<or> it \<in> set items"
      by (auto simp: directory_entries_def)
    then show ?thesis
    proof
      assume "it \<in> set (directory_entries (previous_directory s))"
      with prev have "has_record (resolutions s) it" by (simp add: directory_recorded_def)
      with ri show ?thesis by (rule has_record_after)
    next
      assume "it \<in> set items"
      with inc show ?thesis by (simp add: directory_recorded_def)
    qed
  qed
  then have "directory_recorded (first_seen entry_id ?all) (files st)"
    using set_first_seen_subset [of entry_id ?all] by (auto simp: directory_recorded_def)
  with distinct_keys_first_seen [of entry_id ?all] show ?thesis
    by (simp add: fd directory_consistent_def)
qed

text \<open>The next run reads the directory that this one wrote.\<close>

lemma directory_of_reread:
  assumes "directory_of idx = Some its"
  shows "directory_of (normalize_index (JObj idx)) = Some its"
proof -
  from directory_ofD [OF assms] obtain di where
    di: "map_of idx ''detail_index'' = Some (JObj di)" "map_of di ''resolutions'' = Some (JList its)"
    by blast
  have "map_of (normalize_index (JObj idx)) ''detail_index'' = Some (JObj (normalize_detail_index di))"
    by (simp add: normalize_index_detail as_dict_def di(1))
  moreover have "map_of (normalize_detail_index di) ''resolutions'' = Some (JList its)"
    by (simp add: normalize_detail_index_lookup di(2))
  ultimately show ?thesis by (simp add: directory_of_def)
qed

lemma directory_recorded_entries:
  "directory_recorded ents d \<Longrightarrow> directory_recorded (directory_entries ents) d"
  by (simp add: directory_recorded_def directory_entries_def)

text \<open>
  C3, as amended. After a run that succeeds, one record was written for each line of the
  reply; the ids written are distinct, none of them named a file of the store before the
  run, each file written holds a record whose own \<^verbatim>\<open>id\<close> is the id of the file, and
  every other file of the store is as it was. The remap sends an id only to another id,
  the one under which a record that declared it was written, and a declared id that the
  remap does not hold is the id under which a record that declared it was written; when
  the records declare distinct ids, the remap holds exactly the records written under
  another id than their own. The index file holds the index returned, whose directory is
  the incoming directory on a first run and its merge by id into the previous directory
  otherwise; the incoming directory of a reply without entries is one minimal entry for
  each id written; the next run reads the directory of the index returned as its previous
  directory. When every entry of the reply's directory bears an id that a record of the
  reply declares, no two of them the same id on a first run, and every id of the previous
  directory has its file, the directory of the index returned has no two entries with the
  same id and every entry bears the id of a file of the store; so every id of the
  directory that the next run reads has its file again.
\<close>

theorem run_ids_unique:
  assumes "parse_model_output_to_context L out_text s = (Inr idx, s')"
  shows "\<exists>st.
       write_resolutions L (reply_lines out_text) (initial_state s) = (None, st)
     \<and> resolutions s' = files st \<and> index s' = Stored (JObj idx)
     \<and> length (written_ids st) = length (reply_lines out_text)
     \<and> length (declared_ids L (reply_lines out_text)) = length (reply_lines out_text)
     \<and> distinct (written_ids st)
     \<and> (\<forall>rid\<in>set (written_ids st).
           \<not> path_exists (rid @ ''.json'') (resolutions s)
           \<and> (\<exists>obj. map_of (resolutions s') (rid @ ''.json'') = Some (JObj obj)
                 \<and> map_of obj ''id'' = Some (JStr rid)))
     \<and> (\<forall>name. name \<notin> (\<lambda>rid. rid @ ''.json'') ` set (written_ids st) \<longrightarrow>
           map_of (resolutions s') name = map_of (resolutions s) name)
     \<and> (\<forall>e w. id_remap st e = Some w \<longrightarrow>
           w \<noteq> e \<and> (e, w) \<in> set (zip (declared_ids L (reply_lines out_text)) (written_ids st)))
     \<and> (\<forall>e\<in>set (declared_ids L (reply_lines out_text)). id_remap st e = None \<longrightarrow>
           (e, e) \<in> set (zip (declared_ids L (reply_lines out_text)) (written_ids st)))
     \<and> (distinct (declared_ids L (reply_lines out_text)) \<longrightarrow>
           (\<forall>i<length (reply_lines out_text).
              id_remap st (declared_ids L (reply_lines out_text) ! i)
                = (if written_ids st ! i = declared_ids L (reply_lines out_text) ! i then None
                   else Some (written_ids st ! i))))
     \<and> directory_of idx = Some (final_directory s
           (incoming_directory (written_ids st) (id_remap st) (reply_directory L out_text)))
     \<and> (reply_directory L out_text = [] \<longrightarrow>
           incoming_directory (written_ids st) (id_remap st) (reply_directory L out_text)
             = map minimal_entry (written_ids st))
     \<and> previous_directory s' = final_directory s
           (incoming_directory (written_ids st) (id_remap st) (reply_directory L out_text))
     \<and> (entries_declared (declared_ids L (reply_lines out_text)) (reply_directory L out_text)
          \<and> (read_existing_index s = None \<longrightarrow> distinct (map entry_id (reply_directory L out_text)))
          \<and> directory_recorded (directory_entries (previous_directory s)) (resolutions s)
        \<longrightarrow> directory_consistent (final_directory s
               (incoming_directory (written_ids st) (id_remap st) (reply_directory L out_text)))
             (resolutions s')
          \<and> directory_recorded (directory_entries (previous_directory s')) (resolutions s'))"
proof -
  let ?decl = "declared_ids L (reply_lines out_text)"
  let ?its = "reply_directory L out_text"
  from parse_success [OF assms] obtain incoming st incoming' where
    ri: "reply_index L out_text = Some incoming"
    and w: "write_resolutions L (reply_lines out_text) (initial_state s) = (None, st)"
    and rc: "reconcile_directory (id_remap st) (written_ids st) incoming = Inr incoming'"
    and m: "(case read_existing_index s of
           Some merged \<Rightarrow> if truthy (JObj merged) then merge_index L merged incoming' else Inr incoming'
         | None \<Rightarrow> Inr incoming') = Inr idx"
    and s': "s' = s\<lparr>resolutions := files st, index := Stored (JObj idx)\<rparr>"
    by blast
  have ni: "is_normalized incoming" using ri by (rule reply_index_normalized)
  then obtain its where its: "directory_of incoming = Some its"
    by (auto simp: is_normalized_def)
  have rd: "?its = its" by (simp add: reply_directory_def ri its)
  let ?dir = "incoming_directory (written_ids st) (id_remap st) ?its"
  from reconcile_directory_normalized [OF ni its, of "id_remap st" "written_ids st"] rc
  have d': "directory_of incoming' = Some ?dir" and n': "is_normalized incoming'"
    by (auto simp: incoming_directory_def rd)
  have inv: "run_inv (resolutions s) st"
    using run_inv_initial w by (rule run_inv_loop)
  have "remap_inv ([] @ ?decl) st"
    using remap_inv_initial w by (rule remap_inv_loop)
  then have rinv: "remap_inv ?decl st" by simp
  have len: "length (written_ids st) = length (reply_lines out_text)"
    using write_resolutions_length [OF w] by (simp add: initial_state_def)
  have dlen: "length ?decl = length (reply_lines out_text)"
    using rinv len by (simp add: remap_inv_def)
  have f: "resolutions s' = files st" and i: "index s' = Stored (JObj idx)"
    by (simp_all add: s')
  have dist: "distinct (written_ids st)"
    using inv by (simp add: run_inv_def)
  have wr: "\<forall>rid\<in>set (written_ids st).
           \<not> path_exists (rid @ ''.json'') (resolutions s)
           \<and> (\<exists>obj. map_of (resolutions s') (rid @ ''.json'') = Some (JObj obj)
                 \<and> map_of obj ''id'' = Some (JStr rid))"
    using inv by (simp add: run_inv_def path_exists_def f)
  have ot: "\<forall>name. name \<notin> (\<lambda>rid. rid @ ''.json'') ` set (written_ids st) \<longrightarrow>
           map_of (resolutions s') name = map_of (resolutions s) name"
    using inv by (simp add: run_inv_def f)
  have r1: "\<forall>e w. id_remap st e = Some w \<longrightarrow>
           w \<noteq> e \<and> (e, w) \<in> set (zip ?decl (written_ids st))"
  proof (intro allI impI)
    fix e w
    assume a: "id_remap st e = Some w"
    with rinv have e: "e \<in> set ?decl" and ne: "w \<noteq> e"
      by (auto simp: remap_inv_def)
    from rinv e have "(e, final_id (id_remap st) e) \<in> set (zip ?decl (written_ids st))"
      by (simp add: remap_inv_def)
    with a ne show "w \<noteq> e \<and> (e, w) \<in> set (zip ?decl (written_ids st))"
      by (simp add: final_id_def)
  qed
  have r2: "\<forall>e\<in>set ?decl. id_remap st e = None \<longrightarrow> (e, e) \<in> set (zip ?decl (written_ids st))"
  proof (intro ballI impI)
    fix e
    assume e: "e \<in> set ?decl" and a: "id_remap st e = None"
    from rinv e have "(e, final_id (id_remap st) e) \<in> set (zip ?decl (written_ids st))"
      by (simp add: remap_inv_def)
    with a show "(e, e) \<in> set (zip ?decl (written_ids st))"
      by (simp add: final_id_def)
  qed
  have r3: "distinct ?decl \<longrightarrow>
           (\<forall>i<length (reply_lines out_text).
              id_remap st (?decl ! i)
                = (if written_ids st ! i = ?decl ! i then None else Some (written_ids st ! i)))"
    using remap_inv_distinct [OF rinv] dlen by simp
  have fd: "directory_of idx = Some (final_directory s ?dir)"
  proof (cases "read_existing_index s")
    case None
    with m have "idx = incoming'" by simp
    with d' None show ?thesis by (simp add: final_directory_def)
  next
    case (Some merged)
    then have nm: "is_normalized merged" and t: "truthy (JObj merged)"
      using read_existing_index_normalized by blast+
    from nm obtain old where old: "directory_of merged = Some old"
      by (auto simp: is_normalized_def)
    from m Some t have mi: "merge_index L merged incoming' = Inr idx" by simp
    from merge_index_fields [OF nm n', of L] mi old d'
    have "directory_of idx = Some (first_seen entry_id (directory_entries (old @ ?dir)))"
      by auto
    then show ?thesis
      by (simp add: final_directory_def previous_directory_def Some old)
  qed
  have sy: "?its = [] \<longrightarrow> ?dir = map minimal_entry (written_ids st)"
    by (simp add: incoming_directory_def)
  have pd: "previous_directory s' = final_directory s ?dir"
    using directory_of_reread [OF fd]
    by (simp add: previous_directory_def read_existing_index_def i)
  have co: "entries_declared ?decl ?its
          \<and> (read_existing_index s = None \<longrightarrow> distinct (map entry_id ?its))
          \<and> directory_recorded (directory_entries (previous_directory s)) (resolutions s)
        \<longrightarrow> directory_consistent (final_directory s ?dir) (resolutions s')
          \<and> directory_recorded (directory_entries (previous_directory s')) (resolutions s')"
  proof
    assume a: "entries_declared ?decl ?its
          \<and> (read_existing_index s = None \<longrightarrow> distinct (map entry_id ?its))
          \<and> directory_recorded (directory_entries (previous_directory s)) (resolutions s)"
    then have ed: "entries_declared ?decl ?its"
      and prev: "directory_recorded (directory_entries (previous_directory s)) (resolutions s)"
      by simp_all
    have inc: "directory_recorded ?dir (files st)"
      using inv rinv ed by (rule incoming_directory_recorded)
    have first: "distinct (map entry_id ?dir)" if "read_existing_index s = None"
    proof -
      from a that have "distinct (map entry_id ?its)" by simp
      with inv rinv ed show ?thesis by (rule incoming_directory_distinct)
    qed
    from final_directory_consistent [OF inv prev inc first]
    have c: "directory_consistent (final_directory s ?dir) (resolutions s')"
      by (simp add: f)
    then have "directory_recorded (final_directory s ?dir) (resolutions s')"
      by (simp add: directory_consistent_def)
    then have "directory_recorded (directory_entries (previous_directory s')) (resolutions s')"
      unfolding pd by (rule directory_recorded_entries)
    with c show "directory_consistent (final_directory s ?dir) (resolutions s')
          \<and> directory_recorded (directory_entries (previous_directory s')) (resolutions s')"
      by (rule conjI)
  qed
  show ?thesis
    by (intro exI [of _ st] conjI w f i len dlen dist wr ot r1 r2 r3 fd sy pd co)
qed

theorem run_ids_unique_witness:
  "\<exists>idx s' st.
      parse_model_output_to_context (example_lib [two_entries, record_a, record_c])
        (reply_text two_entries [record_a, record_c]) archive_store = (Inr idx, s')
    \<and> write_resolutions (example_lib [two_entries, record_a, record_c])
        (reply_lines (reply_text two_entries [record_a, record_c])) (initial_state archive_store)
        = (None, st)
    \<and> declared_ids (example_lib [two_entries, record_a, record_c])
        (reply_lines (reply_text two_entries [record_a, record_c])) = [''res-001'', ''res-002'']
    \<and> written_ids st = [''res-002'', ''res-003'']
    \<and> id_remap st ''res-001'' = Some ''res-002'' \<and> id_remap st ''res-002'' = Some ''res-003''
    \<and> resolutions s' =
        [(''res-001.json'', JObj [(''id'', JStr ''res-001''), (''problem'', JStr ''old'')]),
         (''res-002.json'', JObj [(''id'', JStr ''res-002''), (''problem'', JStr ''A'')]),
         (''res-003.json'', JObj [(''id'', JStr ''res-003''), (''problem'', JStr ''C'')])]
    \<and> directory_of idx =
        Some [JObj [(''id'', JStr ''res-001''), (''summary'', JStr ''old'')],
              JObj [(''id'', JStr ''res-002''), (''summary'', JStr ''A'')],
              JObj [(''id'', JStr ''res-003''), (''summary'', JStr ''C'')]]
    \<and> directory_consistent
        [JObj [(''id'', JStr ''res-001''), (''summary'', JStr ''old'')],
         JObj [(''id'', JStr ''res-002''), (''summary'', JStr ''A'')],
         JObj [(''id'', JStr ''res-003''), (''summary'', JStr ''C'')]] (resolutions s')"
proof -
  let ?L = "example_lib [two_entries, record_a, record_c]"
  let ?t = "reply_text two_entries [record_a, record_c]"
  let ?s = "archive_store"
  let ?decl = "declared_ids ?L (reply_lines ?t)"
  let ?ents = "[JObj [(''id'', JStr ''res-001''), (''summary'', JStr ''old'')],
         JObj [(''id'', JStr ''res-002''), (''summary'', JStr ''A'')],
         JObj [(''id'', JStr ''res-003''), (''summary'', JStr ''C'')]]"
  have ok: "\<not> isl (fst (parse_model_output_to_context ?L ?t ?s))" by code_simp
  obtain r s' where p: "parse_model_output_to_context ?L ?t ?s = (r, s')"
    by (cases "parse_model_output_to_context ?L ?t ?s")
  with ok obtain idx where h: "parse_model_output_to_context ?L ?t ?s = (Inr idx, s')"
    by (cases r) simp_all
  have e_dir: "result_directory (parse_model_output_to_context ?L ?t ?s) = Some ?ents"
    by code_simp
  have e_files: "resolutions (snd (parse_model_output_to_context ?L ?t ?s)) =
        [(''res-001.json'', JObj [(''id'', JStr ''res-001''), (''problem'', JStr ''old'')]),
         (''res-002.json'', JObj [(''id'', JStr ''res-002''), (''problem'', JStr ''A'')]),
         (''res-003.json'', JObj [(''id'', JStr ''res-003''), (''problem'', JStr ''C'')])]"
    by code_simp
  have e_decl: "?decl = [''res-001'', ''res-002'']" by code_simp
  have e_written: "written_ids (snd (write_resolutions ?L (reply_lines ?t) (initial_state ?s)))
      = [''res-002'', ''res-003'']"
    by code_simp
  have h1: "entries_declared ?decl (reply_directory ?L ?t)" by code_simp
  have h2: "read_existing_index ?s \<noteq> None" by code_simp
  have h3: "directory_recorded (directory_entries (previous_directory ?s)) (resolutions ?s)"
    by code_simp
  have e_len: "length (reply_lines ?t) = 2" by code_simp
  from run_ids_unique [OF h] obtain st where
    w: "write_resolutions ?L (reply_lines ?t) (initial_state ?s) = (None, st)"
    and r3: "distinct ?decl \<longrightarrow>
           (\<forall>i<length (reply_lines ?t).
              id_remap st (?decl ! i)
                = (if written_ids st ! i = ?decl ! i then None else Some (written_ids st ! i)))"
    and fd: "directory_of idx = Some (final_directory ?s
           (incoming_directory (written_ids st) (id_remap st) (reply_directory ?L ?t)))"
    and co: "entries_declared ?decl (reply_directory ?L ?t)
          \<and> (read_existing_index ?s = None \<longrightarrow> distinct (map entry_id (reply_directory ?L ?t)))
          \<and> directory_recorded (directory_entries (previous_directory ?s)) (resolutions ?s)
        \<longrightarrow> directory_consistent (final_directory ?s
               (incoming_directory (written_ids st) (id_remap st) (reply_directory ?L ?t)))
             (resolutions s')
          \<and> directory_recorded (directory_entries (previous_directory s')) (resolutions s')"
    by (elim exE conjE) (rule that; assumption)
  have wr: "written_ids st = [''res-002'', ''res-003'']"
    using e_written by (simp only: w snd_conv)
  have files: "resolutions s' =
        [(''res-001.json'', JObj [(''id'', JStr ''res-001''), (''problem'', JStr ''old'')]),
         (''res-002.json'', JObj [(''id'', JStr ''res-002''), (''problem'', JStr ''A'')]),
         (''res-003.json'', JObj [(''id'', JStr ''res-003''), (''problem'', JStr ''C'')])]"
    using e_files by (simp only: h snd_conv)
  have dir: "directory_of idx = Some ?ents"
    using e_dir by (simp add: h result_directory_def)
  from r3 have rm: "\<forall>i<2. id_remap st ([''res-001'', ''res-002''] ! i)
      = (if [''res-002'', ''res-003''] ! i = [''res-001'', ''res-002''] ! i then None
         else Some ([''res-002'', ''res-003''] ! i))"
    unfolding e_decl e_len wr by simp
  from rm [rule_format, of 0] have m1: "id_remap st ''res-001'' = Some ''res-002''" by simp
  from rm [rule_format, of 1] have m2: "id_remap st ''res-002'' = Some ''res-003''" by simp
  from co h1 h2 h3 have "directory_consistent (final_directory ?s
               (incoming_directory (written_ids st) (id_remap st) (reply_directory ?L ?t)))
             (resolutions s')"
    by blast
  moreover from fd dir have "final_directory ?s
      (incoming_directory (written_ids st) (id_remap st) (reply_directory ?L ?t)) = ?ents"
    by simp
  ultimately have cons: "directory_consistent ?ents (resolutions s')" by simp
  show ?thesis
    by (intro exI [of _ idx] exI [of _ s'] exI [of _ st] conjI h w e_decl wr m1 m2 files dir cons)
qed

text \<open>
  On an empty store, a reply with one record \<^verbatim>\<open>res-001\<close> and a directory that lists
  \<^verbatim>\<open>res-009\<close> twice: the run succeeds, the only file is \<^verbatim>\<open>res-001.json\<close>, and the
  directory of the index written lists \<^verbatim>\<open>res-009\<close> twice, an id without a record.
  And a reply with the record A, which declares \<^verbatim>\<open>res-001\<close>, and a directory that lists
  \<^verbatim>\<open>res-001\<close> twice: the directory of the index written lists it twice.
\<close>

theorem reply_directory_unchecked:
  "run_outcome (parse_model_output_to_context
       (example_lib [dangling_reply_index, JObj [(''id'', JStr ''res-001'')]])
       (reply_text dangling_reply_index [JObj [(''id'', JStr ''res-001'')]]) empty_store)
     = (Some [Some ''res-009'', Some ''res-009''],
        [(''res-001.json'', JObj [(''id'', JStr ''res-001'')])])
   \<and> run_outcome (parse_model_output_to_context (example_lib [twice_listed, record_a])
       (reply_text twice_listed [record_a]) empty_store)
     = (Some [Some ''res-001'', Some ''res-001''],
        [(''res-001.json'', JObj [(''id'', JStr ''res-001''), (''problem'', JStr ''A'')])])"
  by code_simp

section \<open>The latest values\<close>

text \<open>
  C4. Latest wins without regression. The persisted index has the project \<^verbatim>\<open>demo\<close>, the
  state \<^verbatim>\<open>cluster_ok\<close> and one next action; the reply's index is the empty object, which
  omits the three fields, and the reply has no record. The run succeeds and the merged
  index has the project \<^verbatim>\<open>unknown\<close>, the empty state and no next action: the
  defaults that normalisation put into the incoming index replaced the persisted values.
\<close>

theorem degenerate_reply_regresses:
  "fst (parse_model_output_to_context (example_lib [JObj []]) (reply_text (JObj []) []) regress_store)
     = Inr [(''project'', JStr ''unknown''), (''current_state'', JStr []), (''next_actions'', JList []),
         (''context_version'', JStr ''v2''), (''goals'', JList []), (''constraints'', JList []),
         (''environment'', empty_environment), (''verified_facts'', JList []),
         (''detail_index'', empty_detail_index)]"
  by code_simp

section \<open>The digest and its budget\<close>

lemma slice_from_neg: "0 < k \<Longrightarrow> slice_from (- int k) xs = last_entries k xs"
  by (simp add: slice_from_def last_entries_def nat_diff_distrib' flip: of_nat_diff)

lemma slice_from_zero: "slice_from 0 xs = xs"
  by (simp add: slice_from_def)

lemma last_entries_length: "length (last_entries k xs) = min k (length xs)"
  by (simp add: last_entries_def)

lemma last_entries_suffix: "\<exists>old. xs = old @ last_entries k xs"
  by (metis append_take_drop_id last_entries_def)

text \<open>For a positive budget the digest is the last \<open>max_chars\<close> characters of the text.\<close>

lemma build_session_material_positive:
  assumes "0 < max_chars"
  shows "build_session_material L T events max_chars
     = last_entries (nat max_chars) (digest_text L T events)"
proof -
  from assms have "max_chars = int (nat max_chars)" and "0 < nat max_chars" by simp_all
  then show ?thesis
    by (metis build_session_material_def digest_text_def slice_from_neg)
qed

text \<open>
  With the budget 0 the slice \<^verbatim>\<open>blob[-0:]\<close> is the whole text. No call of the script
  passes this budget.
\<close>

lemma build_session_material_zero:
  "build_session_material L T events 0 = digest_text L T events"
  by (simp add: build_session_material_def digest_text_def slice_from_zero)

text \<open>
  The loop over the events only appends to the channels: the entries of the later events
  come after those of the earlier ones, in every channel.
\<close>

lemma channels_append_assoc:
  "channels_append (channels_append a b) c = channels_append a (channels_append b c)"
  by (simp add: channels_append_def)

lemma channels_append_no_channels: "channels_append no_channels a = a" "channels_append a no_channels = a"
  by (simp_all add: channels_append_def no_channels_def)

lemma classify_other_append:
  "classify_other L e ch = channels_append ch (classify_other L e no_channels)"
  by (cases ch) (simp add: classify_other_def channels_append_def no_channels_def Let_def split: json.splits)

lemma classify_event_append:
  "classify_event L ev ch = channels_append ch (classify_event L ev no_channels)"
proof -
  have s: "ch\<lparr>summaries := summaries ch @ [x]\<rparr>
      = channels_append ch (no_channels\<lparr>summaries := summaries no_channels @ [x]\<rparr>)" for x
    by (cases ch) (simp add: channels_append_def no_channels_def)
  show ?thesis
    using classify_other_append [of L _ ch]
    by (auto simp: classify_event_def s channels_append_no_channels split: json.splits)
qed

lemma collect_from:
  "foldl (\<lambda>ch ev. classify_event L ev ch) ch events
     = channels_append ch (foldl (\<lambda>ch ev. classify_event L ev ch) no_channels events)"
proof (induction events arbitrary: ch)
  case Nil
  show ?case by (simp add: channels_append_no_channels)
next
  case (Cons ev events)
  have "foldl (\<lambda>ch ev. classify_event L ev ch) ch (ev # events)
      = foldl (\<lambda>ch ev. classify_event L ev ch) (classify_event L ev ch) events"
    by simp
  also have "\<dots> = channels_append (classify_event L ev ch)
      (foldl (\<lambda>ch ev. classify_event L ev ch) no_channels events)"
    by (rule Cons.IH)
  also have "\<dots> = channels_append ch (channels_append (classify_event L ev no_channels)
      (foldl (\<lambda>ch ev. classify_event L ev ch) no_channels events))"
    by (subst classify_event_append) (simp only: channels_append_assoc)
  also have "channels_append (classify_event L ev no_channels)
      (foldl (\<lambda>ch ev. classify_event L ev ch) no_channels events)
      = foldl (\<lambda>ch ev. classify_event L ev ch) (classify_event L ev no_channels) events"
    by (rule Cons.IH [symmetric])
  finally show ?case by simp
qed

lemma collect_channels_append:
  "collect_channels L (older @ newer)
     = channels_append (collect_channels L older) (collect_channels L newer)"
proof -
  have c: "collect_channels L evs = foldl (\<lambda>ch ev. classify_event L ev ch) no_channels evs" for evs
    by (simp add: collect_channels_def no_channels_def)
  show ?thesis
    unfolding c foldl_append by (rule collect_from)
qed

text \<open>
  C9. Digest truncation recency. With the default budget, and with every positive one,
  the digest is the last \<open>max_chars\<close> characters of the sectioned text: what is cut is
  the front. The sectioned text is the stripped concatenation of the sections; a section
  holds the most recent entries of its channel, in their order: the last 80 summaries, and
  the last 120 invocations, statistics, outputs and dialogue lines, an output cut to its
  first 20000 characters. The last \<open>k\<close> entries of a list are what is left when the
  oldest are dropped, and the channels hold their entries in the order of the events.
\<close>

theorem digest_truncation_recency:
  "build_session_material L T events default_max_chars
     = last_entries 60000 (digest_text L T events)
   \<and> (\<forall>max_chars>0. build_session_material L T events max_chars
         = last_entries (nat max_chars) (digest_text L T events))
   \<and> digest_text L T events
       = strip (join [CHR 0x0A] (material_lines T (collect_channels L events)))
   \<and> material_lines T ch =
     (if summaries ch \<noteq> []
      then [summary_title T] @ map (\<lambda>s. ''- '' @ s) (last_entries 80 (summaries ch)) @ [[]]
      else [])
     @ (if tool_uses ch \<noteq> []
        then [tool_use_title T] @ last_entries 120 (tool_uses ch) @ [[]]
        else [])
     @ (if tool_stats ch \<noteq> []
        then [tool_stats_title T] @ last_entries 120 (tool_stats ch) @ [[]]
        else [])
     @ (if tool_results ch \<noteq> []
        then [tool_result_title T]
          @ concat (map (\<lambda>block. [take 20000 block, [CHR 0x0A, CHR ''-'', CHR ''-'', CHR ''-'', CHR 0x0A]])
              (last_entries 120 (tool_results ch)))
        else [])
     @ (if dialogue ch \<noteq> []
        then [dialogue_title T] @ last_entries 120 (dialogue ch)
        else [])
   \<and> last_entries k xs = drop (length xs - k) xs
   \<and> collect_channels L (older @ newer)
       = channels_append (collect_channels L older) (collect_channels L newer)"
proof (intro conjI allI impI)
  show "build_session_material L T events default_max_chars
     = last_entries 60000 (digest_text L T events)"
    using build_session_material_positive [of 60000 L T events]
    by (simp add: default_max_chars_def)
next
  fix max_chars :: int
  assume "0 < max_chars"
  then show "build_session_material L T events max_chars
         = last_entries (nat max_chars) (digest_text L T events)"
    by (rule build_session_material_positive)
next
  show "digest_text L T events
       = strip (join [CHR 0x0A] (material_lines T (collect_channels L events)))"
    by (simp add: digest_text_def)
next
  have a: "slice_from (- 80) xs = last_entries 80 xs" for xs :: "string list"
    using slice_from_neg [of 80 xs] by simp
  have b: "slice_from (- 120) xs = last_entries 120 xs" for xs :: "string list"
    using slice_from_neg [of 120 xs] by simp
  show "material_lines T ch =
     (if summaries ch \<noteq> []
      then [summary_title T] @ map (\<lambda>s. ''- '' @ s) (last_entries 80 (summaries ch)) @ [[]]
      else [])
     @ (if tool_uses ch \<noteq> []
        then [tool_use_title T] @ last_entries 120 (tool_uses ch) @ [[]]
        else [])
     @ (if tool_stats ch \<noteq> []
        then [tool_stats_title T] @ last_entries 120 (tool_stats ch) @ [[]]
        else [])
     @ (if tool_results ch \<noteq> []
        then [tool_result_title T]
          @ concat (map (\<lambda>block. [take 20000 block, [CHR 0x0A, CHR ''-'', CHR ''-'', CHR ''-'', CHR 0x0A]])
              (last_entries 120 (tool_results ch)))
        else [])
     @ (if dialogue ch \<noteq> []
        then [dialogue_title T] @ last_entries 120 (dialogue ch)
        else [])"
    unfolding material_lines_def a b ..
next
  show "last_entries k xs = drop (length xs - k) xs"
    by (simp add: last_entries_def)
next
  show "collect_channels L (older @ newer)
       = channels_append (collect_channels L older) (collect_channels L newer)"
    by (rule collect_channels_append)
qed

theorem digest_truncation_recency_witness:
  "(0::int) < 5
   \<and> digest_text (table_lib []) ascii_titles
       [JObj [(''summary'', JStr ''fixed the build''), (''type'', JStr ''summary'')]]
     = ''[summary]'' @ [CHR 0x0A] @ ''- fixed the build''
   \<and> build_session_material (table_lib []) ascii_titles
       [JObj [(''summary'', JStr ''fixed the build''), (''type'', JStr ''summary'')]] 5
     = ''build''"
proof -
  let ?L = "table_lib []"
  let ?ev = "[JObj [(''summary'', JStr ''fixed the build''), (''type'', JStr ''summary'')]]"
  have p: "(0::int) < 5" by simp
  have d: "digest_text ?L ascii_titles ?ev = ''[summary]'' @ [CHR 0x0A] @ ''- fixed the build''"
    by code_simp
  have l: "last_entries (nat 5) (''[summary]'' @ [CHR 0x0A] @ ''- fixed the build'') = ''build''"
    by code_simp
  from digest_truncation_recency [of ?L ascii_titles ?ev, THEN conjunct2, THEN conjunct1,
      rule_format, of 5] p
  have "build_session_material ?L ascii_titles ?ev 5
      = last_entries (nat 5) (digest_text ?L ascii_titles ?ev)" .
  then have b: "build_session_material ?L ascii_titles ?ev 5 = ''build''"
    by (simp only: d l)
  show ?thesis by (intro conjI p d b)
qed

end
